theory Spec2Isabelle
  imports Complex_Main
begin

section \<open>Calendar dates\<close>

text \<open>
  The dates of a series are pandas timestamps at midnight: calendar dates.  A date is its
  year, month and day, as the attributes of a timestamp; pandas compares and subtracts
  timestamps through their position on the time line, which for a calendar date is its
  proleptic Gregorian ordinal.  The limits of the 64-bit nanosecond clock (years 1677 to
  2262) are not modelled.
\<close>

datatype date = Date (year: int) (month: int) (day: int)

definition is_leap_year :: "int \<Rightarrow> bool" where
  "is_leap_year y = (y mod 4 = 0 \<and> (y mod 100 \<noteq> 0 \<or> y mod 400 = 0))"

definition days_in_month :: "int \<Rightarrow> int \<Rightarrow> int" where
  "days_in_month y m =
     (if m = 2 then (if is_leap_year y then 29 else 28)
      else if m = 4 \<or> m = 6 \<or> m = 9 \<or> m = 11 then 30
      else 31)"

definition valid_date :: "date \<Rightarrow> bool" where
  "valid_date d =
     (1 \<le> month d \<and> month d \<le> 12 \<and> 1 \<le> day d \<and> day d \<le> days_in_month (year d) (month d))"

definition days_before_year :: "int \<Rightarrow> int" where
  "days_before_year y = 365 * (y - 1) + (y - 1) div 4 - (y - 1) div 100 + (y - 1) div 400"

definition days_before_month :: "int \<Rightarrow> int \<Rightarrow> int" where
  "days_before_month y m = sum_list (map (days_in_month y) [1 .. m - 1])"

definition to_ordinal :: "date \<Rightarrow> int" where
  "to_ordinal d = days_before_year (year d) + days_before_month (year d) (month d) + day d"

definition next_day :: "date \<Rightarrow> date" where
  "next_day d =
     (if day d < days_in_month (year d) (month d) then Date (year d) (month d) (day d + 1)
      else if month d < 12 then Date (year d) (month d + 1) 1
      else Date (year d + 1) 1 1)"

definition prev_day :: "date \<Rightarrow> date" where
  "prev_day d =
     (if 1 < day d then Date (year d) (month d) (day d - 1)
      else if 1 < month d then Date (year d) (month d - 1) (days_in_month (year d) (month d - 1))
      else Date (year d - 1) 12 31)"

primrec days_after :: "nat \<Rightarrow> date \<Rightarrow> date" where
  "days_after 0 d = d"
| "days_after (Suc n) d = next_day (days_after n d)"

primrec days_before :: "nat \<Rightarrow> date \<Rightarrow> date" where
  "days_before 0 d = d"
| "days_before (Suc n) d = prev_day (days_before n d)"

text \<open>\<open>date + pd.Timedelta(days=n)\<close>, for an integer \<open>n\<close> of either sign.\<close>

definition add_days :: "date \<Rightarrow> int \<Rightarrow> date" where
  "add_days d n = (if 0 \<le> n then days_after (nat n) d else days_before (nat (- n)) d)"

text \<open>
  The ordinal of a monthly period (\<open>to_period('M')\<close>) counts months, that of a yearly
  period (\<open>to_period('Y')\<close>) is the year; the difference of two periods is the difference
  of their ordinals (the \<open>n\<close> of the offset that \<open>diff\<close> returns).
\<close>

definition month_ordinal :: "date \<Rightarrow> int" where
  "month_ordinal d = year d * 12 + (month d - 1)"

definition month_end :: "int \<Rightarrow> date" where
  "month_end mi = (let y = mi div 12; m = mi mod 12 + 1 in Date y m (days_in_month y m))"

definition year_end :: "int \<Rightarrow> date" where
  "year_end y = Date y 12 31"

text \<open>
  \<open>date + pd.DateOffset(months=n)\<close> and \<open>date + pd.DateOffset(years=n)\<close>: the month
  or year moves, the day is kept where the target month has it and is the last day of the
  target month otherwise.
\<close>

definition add_months :: "date \<Rightarrow> int \<Rightarrow> date" where
  "add_months d n =
     (let mi = month_ordinal d + n; y = mi div 12; m = mi mod 12 + 1
      in Date y m (min (day d) (days_in_month y m)))"

definition add_years :: "date \<Rightarrow> int \<Rightarrow> date" where
  "add_years d n =
     (let y = year d + n in Date y (month d) (min (day d) (days_in_month y (month d))))"

section \<open>Errors and tables\<close>

text \<open>
  Every exception of the Python is a value.  \<open>GapError\<close> is the \<open>ValueError\<close> of
  \<open>gap_check\<close> that reports gaps, \<open>UnsupportedUnit\<close> the one of its last branch,
  \<open>ValueError\<close> any other \<open>ValueError\<close> that pandas raises.  The values of a series
  are real numbers here; where the Python value is a NaN or a complex number the model
  returns \<open>NotReal\<close>, which is not an exception of the Python but the end of what a
  real-valued table can say.
\<close>

datatype error =
    GapError
  | UnsupportedUnit
  | ValueError
  | KeyError
  | IndexError
  | ZeroDivisionError
  | UnboundLocalError
  | NotReal

text \<open>
  A dataset is the table of the columns \<open>date\<close> and \<open>value_column\<close>, in row order.
  The name of the value column only selects the column; the model has that column alone
  and drops the parameter.
\<close>

type_synonym observation = "date \<times> real"
type_synonym dataset = "observation list"

definition bind :: "error + 'a \<Rightarrow> ('a \<Rightarrow> error + 'b) \<Rightarrow> error + 'b" where
  "bind m f = (case m of Inl e \<Rightarrow> Inl e | Inr v \<Rightarrow> f v)"

text \<open>The results of a function applied row by row: the first exception ends the loop.\<close>

fun collect :: "(error + 'a) list \<Rightarrow> error + 'a list" where
  "collect [] = Inr []"
| "collect (x # xs) =
     (case x of
        Inl e \<Rightarrow> Inl e
      | Inr v \<Rightarrow> (case collect xs of Inl e \<Rightarrow> Inl e | Inr vs \<Rightarrow> Inr (v # vs)))"

section \<open>Gap detection (utils.py)\<close>

text \<open>\<open>Series.diff().dropna()\<close>: each element minus its predecessor, the first row dropped.\<close>

fun series_diff :: "int list \<Rightarrow> int list" where
  "series_diff (a # b # xs) = (b - a) # series_diff (b # xs)"
| "series_diff xs = []"

definition gap_check :: "dataset \<Rightarrow> string \<Rightarrow> error + unit" where
  "gap_check dataset time_units =
     bind
       (if time_units = ''days'' then
          (let delta = series_diff (map (\<lambda>r. to_ordinal (fst r)) dataset)
           in Inr (filter (\<lambda>x. 1 < x) delta))
        else if time_units = ''months'' then
          (let periods = map (\<lambda>r. month_ordinal (fst r)) dataset;
               month_diffs = series_diff periods
           in Inr (filter (\<lambda>x. 1 < x) month_diffs))
        else if time_units = ''years'' then
          (let periods = map (\<lambda>r. year (fst r)) dataset;
               year_diffs = series_diff periods
           in Inr (filter (\<lambda>x. 1 < x) year_diffs))
        else Inl UnsupportedUnit)
       (\<lambda>gaps. if gaps \<noteq> [] then Inl GapError else Inr ())"

section \<open>Date ranges of pandas\<close>

text \<open>
  \<open>pd.date_range\<close> is library code.  With the frequency \<open>D\<close> it steps by days from
  \<open>start\<close>.  The frequencies \<open>M\<close> and \<open>Y\<close> are the month-end and year-end offsets:
  \<open>start\<close> is rolled forward to the last day of its month (or to 31 December of its
  year), \<open>end\<close> is rolled back, and the range holds every month end (year end) between
  the two.
\<close>

definition is_month_end :: "date \<Rightarrow> bool" where
  "is_month_end d = (day d = days_in_month (year d) (month d))"

definition is_year_end :: "date \<Rightarrow> bool" where
  "is_year_end d = (month d = 12 \<and> day d = 31)"

definition generate_range :: "date \<Rightarrow> date \<Rightarrow> string \<Rightarrow> date list" where
  "generate_range start end freq =
     (if freq = ''D'' then map (add_days start) [0 .. to_ordinal end - to_ordinal start]
      else if freq = ''M'' then
        map month_end
          [month_ordinal start ..
           (if is_month_end end then month_ordinal end else month_ordinal end - 1)]
      else
        map year_end [year start .. (if is_year_end end then year end else year end - 1)])"

text \<open>
  \<open>pd.date_range(start=, end=, freq=, inclusive='left')\<close>: the generated range without
  its last element when that element is \<open>end\<close>.
\<close>

definition date_range_left :: "date \<Rightarrow> date \<Rightarrow> string \<Rightarrow> date list" where
  "date_range_left start end freq =
     (let xs = generate_range start end freq
      in if xs \<noteq> [] \<and> to_ordinal (last xs) = to_ordinal end then butlast xs else xs)"

text \<open>
  \<open>pd.date_range(start, periods=, freq=, inclusive='both')\<close>: \<open>periods\<close> dates from
  the rolled start on; none when \<open>periods\<close> is not positive.
\<close>

definition date_range_periods :: "date \<Rightarrow> int \<Rightarrow> string \<Rightarrow> date list" where
  "date_range_periods start periods freq =
     (if freq = ''D'' then map (add_days start) [0 .. periods - 1]
      else if freq = ''M'' then
        map month_end [month_ordinal start .. month_ordinal start + periods - 1]
      else map year_end [year start .. year start + periods - 1])"

section \<open>Python arithmetic on floats, over the reals\<close>

definition py_div :: "real \<Rightarrow> real \<Rightarrow> error + real" where
  "py_div a b = (if b = 0 then Inl ZeroDivisionError else Inr (a / b))"

text \<open>
  \<open>x ** y\<close> on Python floats: a negative base with an exponent that is not a whole
  number gives a complex number; zero to a negative power raises.
\<close>

definition py_pow :: "real \<Rightarrow> real \<Rightarrow> error + real" where
  "py_pow x y =
     (if 0 < x then Inr (x powr y)
      else if x = 0 then
        (if 0 < y then Inr 0 else if y = 0 then Inr 1 else Inl ZeroDivisionError)
      else if y = of_int \<lfloor>y\<rfloor> then
        Inr ((if even \<lfloor>y\<rfloor> then 1 else - 1) * ((- x) powr y))
      else Inl NotReal)"

section \<open>Moving a date (utils.py)\<close>

definition date_delta :: "string \<Rightarrow> date \<Rightarrow> int \<Rightarrow> error + date" where
  "date_delta time_units date timesteps =
     (if time_units = ''days'' then Inr (add_days date timesteps)
      else if time_units = ''months'' then Inr (add_months date timesteps)
      else if time_units = ''years'' then Inr (add_years date timesteps)
      else Inl UnboundLocalError)"

section \<open>The segment table (utils.py)\<close>

text \<open>
  \<open>add_bounds\<close> turns the dataset into the table of segments: each row with the date
  and value of its successor, the last row (which has none) dropped.  The later functions
  add columns to that table; a column that has not been added is \<open>None\<close>, and reading
  it raises \<open>KeyError\<close>.  The columns named after the rate type are one field each, as
  one call works with one rate type.
\<close>

record row =
  start_date :: date
  start_value :: real
  end_date :: date
  end_value :: real
  date_range :: "date list option"
  timesteps :: "int option"
  rate :: "real option"
  interpolated :: "real list option"

fun add_bounds :: "dataset \<Rightarrow> row list" where
  "add_bounds (a # b # xs) =
     \<lparr>start_date = fst a, start_value = snd a, end_date = fst b, end_value = snd b,
      date_range = None, timesteps = None, rate = None, interpolated = None\<rparr>
     # add_bounds (b # xs)"
| "add_bounds xs = []"

text \<open>
  \<open>dataset[column] = dataset.apply(f, axis=1)\<close>, for an \<open>f\<close> that fails on a row of
  missing values: on a table without rows pandas then returns a copy of the table from
  \<open>apply\<close>, and the assignment of a table to one column raises \<open>ValueError\<close>.
\<close>

definition assign_rows :: "(row \<Rightarrow> error + row) \<Rightarrow> row list \<Rightarrow> error + row list" where
  "assign_rows f dataset = (if dataset = [] then Inl ValueError else collect (map f dataset))"

definition add_timesteps :: "row list \<Rightarrow> error + row list" where
  "add_timesteps dataset =
     assign_rows
       (\<lambda>x. case date_range x of
               None \<Rightarrow> Inl KeyError
             | Some r \<Rightarrow> Inr (x\<lparr>timesteps := Some (int (length r))\<rparr>))
       dataset"

definition add_daterange :: "row list \<Rightarrow> string \<Rightarrow> error + row list" where
  "add_daterange dataset time_units =
     (if time_units = ''days'' then
        assign_rows
          (\<lambda>x. Inr (x\<lparr>date_range := Some (date_range_left (start_date x) (end_date x) ''D'')\<rparr>))
          dataset
      else if time_units = ''months'' then
        assign_rows
          (\<lambda>x. Inr (x\<lparr>date_range := Some (date_range_left (start_date x) (end_date x) ''M'')\<rparr>))
          dataset
      else if time_units = ''years'' then
        assign_rows
          (\<lambda>x. Inr (x\<lparr>date_range := Some (date_range_left (start_date x) (end_date x) ''Y'')\<rparr>))
          dataset
      else Inr dataset)"

text \<open>
  The rate of one row.  The row that \<open>apply\<close> hands to the function holds Python
  numbers, so a division by zero raises.  On a table without rows the function does not
  fail on the row of missing values, and the new column is empty.
\<close>

definition linear_rate :: "row \<Rightarrow> error + real" where
  "linear_rate x =
     (let d = end_value x - start_value x
      in case timesteps x of
           None \<Rightarrow> Inl KeyError
         | Some k \<Rightarrow> py_div d (of_int k))"

definition exponential_rate :: "row \<Rightarrow> error + real" where
  "exponential_rate x =
     bind (py_div (end_value x) (start_value x))
       (\<lambda>q. case timesteps x of
               None \<Rightarrow> Inl KeyError
             | Some k \<Rightarrow> bind (py_div 1 (of_int k)) (\<lambda>e. py_pow q e))"

definition add_rate :: "row list \<Rightarrow> string \<Rightarrow> error + row list" where
  "add_rate dataset rate_type =
     (if rate_type = ''linear'' then
        collect (map (\<lambda>x. bind (linear_rate x) (\<lambda>r. Inr (x\<lparr>rate := Some r\<rparr>))) dataset)
      else if rate_type = ''exponential'' then
        collect (map (\<lambda>x. bind (exponential_rate x) (\<lambda>r. Inr (x\<lparr>rate := Some r\<rparr>))) dataset)
      else Inr dataset)"

text \<open>
  The interpolated values of one row: one value for each \<open>n\<close> of
  \<open>range(timesteps)\<close>; the rate is read once for each \<open>n\<close>, so not at all when the
  range is empty.
\<close>

definition linear_values :: "row \<Rightarrow> error + real list" where
  "linear_values x =
     (case timesteps x of
        None \<Rightarrow> Inl KeyError
      | Some k \<Rightarrow>
          if k \<le> 0 then Inr []
          else (case rate x of
                  None \<Rightarrow> Inl KeyError
                | Some r \<Rightarrow> Inr (map (\<lambda>n. start_value x + real n * r) [0 ..< nat k])))"

definition exponential_values :: "row \<Rightarrow> error + real list" where
  "exponential_values x =
     (case timesteps x of
        None \<Rightarrow> Inl KeyError
      | Some k \<Rightarrow>
          if k \<le> 0 then Inr []
          else (case rate x of
                  None \<Rightarrow> Inl KeyError
                | Some r \<Rightarrow> Inr (map (\<lambda>n. start_value x * r ^ n) [0 ..< nat k])))"

definition add_interpolated_values :: "row list \<Rightarrow> string \<Rightarrow> error + row list" where
  "add_interpolated_values dataset rate_type =
     (if rate_type = ''linear'' then
        assign_rows (\<lambda>x. bind (linear_values x) (\<lambda>vs. Inr (x\<lparr>interpolated := Some vs\<rparr>))) dataset
      else if rate_type = ''exponential'' then
        assign_rows (\<lambda>x. bind (exponential_values x) (\<lambda>vs. Inr (x\<lparr>interpolated := Some vs\<rparr>))) dataset
      else Inr dataset)"

definition filter_data :: "dataset \<Rightarrow> date \<Rightarrow> date \<Rightarrow> bool \<Rightarrow> dataset" where
  "filter_data dataset start end inclusive =
     (if inclusive then
        filter (\<lambda>r. to_ordinal start \<le> to_ordinal (fst r) \<and> to_ordinal (fst r) \<le> to_ordinal end)
          dataset
      else
        filter (\<lambda>r. to_ordinal start < to_ordinal (fst r) \<and> to_ordinal (fst r) < to_ordinal end)
          dataset)"

section \<open>Orchestration (tempute.py)\<close>

text \<open>
  Reading a column of the segment table: \<open>KeyError\<close> when the column was never added.
\<close>

definition column :: "(row \<Rightarrow> 'a option) \<Rightarrow> row list \<Rightarrow> error + 'a list" where
  "column f dataset =
     (if list_ex (\<lambda>x. f x = None) dataset then Inl KeyError else Inr (map (\<lambda>x. the (f x)) dataset))"

text \<open>
  \<open>Series.explode\<close> puts the elements of the cells below each other.  An empty cell
  becomes one row with a missing value, which a table of dates and reals does not have.
\<close>

definition explode :: "'a list list \<Rightarrow> error + 'a list" where
  "explode cells = (if list_ex (\<lambda>c. c = []) cells then Inl NotReal else Inr (concat cells))"

text \<open>
  The table of two exploded columns; pandas raises \<open>ValueError\<close> for arrays of
  different lengths.
\<close>

definition interpolated_dataset :: "row list \<Rightarrow> error + dataset" where
  "interpolated_dataset dataset =
     bind (bind (column date_range dataset) explode)
       (\<lambda>exploded_df_dates.
          bind (bind (column interpolated dataset) explode)
            (\<lambda>exploded_interpolated_values.
               if length exploded_df_dates = length exploded_interpolated_values
               then Inr (zip exploded_df_dates exploded_interpolated_values)
               else Inl ValueError))"

text \<open>\<open>dataset[dataset['date'] == dataset['date'].max()]\<close>: every row with the latest date.\<close>

definition last_rows :: "dataset \<Rightarrow> dataset" where
  "last_rows dataset =
     filter (\<lambda>r. list_all (\<lambda>r'. to_ordinal (fst r') \<le> to_ordinal (fst r)) dataset) dataset"

text \<open>
  The steps that \<open>fill_gaps\<close>, \<open>yearly_to_monthly\<close> and \<open>monthly_to_daily\<close> share,
  from \<open>add_bounds\<close> to the concatenation with the saved last row.
\<close>

definition fill_steps :: "dataset \<Rightarrow> string \<Rightarrow> string \<Rightarrow> error + dataset" where
  "fill_steps data rate_type time_units =
     (let last_row = last_rows data
      in bind (add_daterange (add_bounds data) time_units)
           (\<lambda>d1. bind (add_timesteps d1)
              (\<lambda>d2. bind (add_rate d2 rate_type)
                 (\<lambda>d3. bind (add_interpolated_values d3 rate_type)
                    (\<lambda>d4. bind (interpolated_dataset d4)
                       (\<lambda>filled_in_data. Inr (filled_in_data @ last_row)))))))"

definition fill_gaps :: "dataset \<Rightarrow> string \<Rightarrow> string \<Rightarrow> error + dataset" where
  "fill_gaps dataset rate_type time_units = fill_steps dataset rate_type time_units"

definition yearly_to_monthly :: "dataset \<Rightarrow> string \<Rightarrow> error + dataset" where
  "yearly_to_monthly dataset rate_type =
     bind (gap_check dataset ''months'') (\<lambda>_. fill_steps dataset rate_type ''months'')"

definition monthly_to_daily :: "dataset \<Rightarrow> string \<Rightarrow> error + dataset" where
  "monthly_to_daily dataset rate_type =
     bind (gap_check dataset ''months'') (\<lambda>_. fill_steps dataset rate_type ''days'')"

text \<open>
  \<open>time_units_dict[time_units]\<close> raises \<open>KeyError\<close> for a unit that is not a key; a rate
  type that is neither branch leaves \<open>values\<close> unbound.
\<close>

definition time_units_dict :: "string \<Rightarrow> string option" where
  "time_units_dict = [''days'' \<mapsto> ''D'', ''months'' \<mapsto> ''M'', ''years'' \<mapsto> ''Y'']"

definition extrapolated_dataset ::
  "string \<Rightarrow> string \<Rightarrow> real \<Rightarrow> date \<Rightarrow> real \<Rightarrow> int \<Rightarrow> error + dataset" where
  "extrapolated_dataset rate_type time_units r start_date' start_value' future_timesteps =
     (case time_units_dict time_units of
        None \<Rightarrow> Inl KeyError
      | Some freq \<Rightarrow>
          (let dates = date_range_periods start_date' (future_timesteps + 1) freq
           in if rate_type = ''linear'' then
                Inr (zip dates
                  (map (\<lambda>n. start_value' + r * real n) [0 ..< nat (future_timesteps + 1)]))
              else if rate_type = ''exponential'' then
                Inr (zip dates
                  (map (\<lambda>n. start_value' * r ^ n) [0 ..< nat (future_timesteps + 1)]))
              else Inl UnboundLocalError))"

text \<open>\<open>np.mean\<close> of a column: NaN for a column without rows.\<close>

definition mean :: "real list \<Rightarrow> error + real" where
  "mean xs = (if xs = [] then Inl NotReal else Inr (sum_list xs / real (length xs)))"

definition extrapolate ::
  "dataset \<Rightarrow> string \<Rightarrow> string \<Rightarrow> date \<Rightarrow> int \<Rightarrow> int \<Rightarrow> error + dataset" where
  "extrapolate dataset rate_type time_units extrapolate_start_date future_timesteps past_timesteps =
     (case filter (\<lambda>r. to_ordinal (fst r) = to_ordinal extrapolate_start_date) dataset of
        [] \<Rightarrow> Inl IndexError
      | anchor # _ \<Rightarrow>
          (let extrapolate_start_value = snd anchor
           in bind (date_delta time_units extrapolate_start_date past_timesteps)
                (\<lambda>rate_start_date.
                   let extrapolate_data =
                         filter_data dataset rate_start_date extrapolate_start_date True
                   in bind (gap_check extrapolate_data time_units)
                        (\<lambda>_. bind
                           (add_rate
                              (map (\<lambda>x. x\<lparr>timesteps := Some 1\<rparr>) (add_bounds extrapolate_data))
                              rate_type)
                           (\<lambda>rated. bind (bind (column rate rated) mean)
                              (\<lambda>average_rate.
                                 extrapolated_dataset rate_type time_units average_rate
                                   extrapolate_start_date extrapolate_start_value
                                   future_timesteps))))))"

section \<open>Notions of the specification\<close>

text \<open>
  The difference of two dates in calendar periods of a unit, as the specification of the
  gap detector words it: days between the dates, or months (years) between their
  monthly (yearly) periods.
\<close>

definition unit_difference :: "string \<Rightarrow> date \<Rightarrow> date \<Rightarrow> int" where
  "unit_difference time_units a b =
     (if time_units = ''days'' then to_ordinal b - to_ordinal a
      else if time_units = ''months'' then month_ordinal b - month_ordinal a
      else year b - year a)"

text \<open>
  The ordinal of the period of a date at a unit: its day, its month or its year.  The
  difference of two dates in periods is the difference of these ordinals.
\<close>

definition unit_ordinal :: "string \<Rightarrow> date \<Rightarrow> int" where
  "unit_ordinal time_units d =
     (if time_units = ''days'' then to_ordinal d
      else if time_units = ''months'' then month_ordinal d
      else year d)"

text \<open>The frequency that \<open>add_daterange\<close> passes to \<open>pd.date_range\<close> for a unit.\<close>

definition unit_frequency :: "string \<Rightarrow> string" where
  "unit_frequency time_units =
     (if time_units = ''days'' then ''D'' else if time_units = ''months'' then ''M'' else ''Y'')"

text \<open>The date range of a segment at a unit.\<close>

definition segment_range :: "string \<Rightarrow> row \<Rightarrow> date list" where
  "segment_range time_units x =
     date_range_left (start_date x) (end_date x) (unit_frequency time_units)"

section \<open>Example inputs\<close>

text \<open>The first segment of scenario A, resampled to months: twelve steps from 100 to 150.\<close>

definition segment_A :: row where
  "segment_A =
     \<lparr>start_date = Date 2020 1 1, start_value = 100, end_date = Date 2021 1 1, end_value = 150,
      date_range = Some (date_range_left (Date 2020 1 1) (Date 2021 1 1) ''M''),
      timesteps = Some 12, rate = None, interpolated = None\<rparr>"

definition segment_A_rated :: row where
  "segment_A_rated = segment_A\<lparr>rate := Some (25 / 6)\<rparr>"

text \<open>A segment that starts at the value zero.\<close>

definition segment_zero :: row where
  "segment_zero =
     \<lparr>start_date = Date 2020 1 1, start_value = 0, end_date = Date 2021 1 1, end_value = 200,
      date_range = Some [Date 2020 12 31], timesteps = Some 1, rate = None,
      interpolated = None\<rparr>"

text \<open>The series of scenario C: ten more each year.\<close>

definition series_C :: dataset where
  "series_C = [(Date 2020 1 1, 100), (Date 2021 1 1, 110), (Date 2022 1 1, 120)]"

text \<open>A segment from 1 January to 1 March 2020, before any column is added.\<close>

definition segment_B :: row where
  "segment_B =
     \<lparr>start_date = Date 2020 1 1, start_value = 100, end_date = Date 2020 3 1, end_value = 120,
      date_range = None, timesteps = None, rate = None, interpolated = None\<rparr>"

text \<open>A series with a jump of two years, and a series of two consecutive months.\<close>

definition series_jump :: dataset where
  "series_jump = [(Date 2020 1 1, 100), (Date 2022 1 1, 200)]"

definition series_months :: dataset where
  "series_months = [(Date 2020 2 27, 1), (Date 2020 3 1, 4)]"

section \<open>Calendar arithmetic: results\<close>

lemma days_in_month_bounds: "28 \<le> days_in_month y m \<and> days_in_month y m \<le> 31"
  by (simp add: days_in_month_def)

lemma days_before_month_Suc:
  assumes "1 \<le> m"
  shows "days_before_month y (m + 1) = days_before_month y m + days_in_month y m"
proof -
  have "[1 .. m] = [1 .. m - 1] @ [m]" using assms by (simp add: upto_rec2)
  then show ?thesis by (simp add: days_before_month_def)
qed

lemma days_before_month_1: "days_before_month y 1 = 0"
  by (simp add: days_before_month_def)

lemma days_before_month_12:
  "days_before_month y 12 + 31 = (if is_leap_year y then 366 else 365)"
  by (simp add: days_before_month_def upto_rec1 days_in_month_def)

lemma div_step:
  fixes y k :: int
  assumes "0 < k"
  shows "y div k = (y - 1) div k + (if y mod k = 0 then 1 else 0)"
proof (cases "y mod k = 0")
  case True
  have y: "y = k * (y div k) + y mod k" by simp
  have "y - 1 = k * (y div k - 1) + (k - 1)"
    using y True by (simp add: right_diff_distrib)
  then have "(y - 1) div k = y div k - 1"
    using assms int_div_pos_eq [of "y - 1" k "y div k - 1" "k - 1"] by simp
  with True show ?thesis by simp
next
  case False
  have m: "0 < y mod k" "y mod k < k"
    using assms False pos_mod_sign [of k y] pos_mod_bound [of k y] by linarith+
  have "y - 1 = k * (y div k) + (y mod k - 1)" by simp
  then have "(y - 1) div k = y div k"
    using m int_div_pos_eq [of "y - 1" k "y div k" "y mod k - 1"] by simp
  with False show ?thesis by simp
qed

lemma dvd_mod_0:
  fixes y a b :: int
  assumes "a dvd b" and "y mod b = 0"
  shows "y mod a = 0"
proof -
  from assms(2) have "b dvd y" by (simp add: mod_eq_0_iff_dvd)
  with assms(1) have "a dvd y" by (rule dvd_trans)
  then show ?thesis by (simp add: mod_eq_0_iff_dvd)
qed

lemma leap_sum:
  fixes A B C D4 D100 D400 a b c y :: int
  assumes "D4 = A + a" "D100 = B + b" "D400 = C + c"
  shows "365 * y + D4 - D100 + D400 = 365 * (y - 1) + A - B + C + (365 + a - b + c)"
  using assms by simp

lemma days_before_year_Suc:
  "days_before_year (y + 1) = days_before_year y + (if is_leap_year y then 366 else 365)"
proof -
  define p4 p100 p400 where "p4 \<longleftrightarrow> y mod 4 = 0" and "p100 \<longleftrightarrow> y mod 100 = 0"
    and "p400 \<longleftrightarrow> y mod 400 = 0"
  have a: "y div 4 = (y - 1) div 4 + (if p4 then 1 else 0)"
    unfolding p4_def by (rule div_step) simp
  have b: "y div 100 = (y - 1) div 100 + (if p100 then 1 else 0)"
    unfolding p100_def by (rule div_step) simp
  have c: "y div 400 = (y - 1) div 400 + (if p400 then 1 else 0)"
    unfolding p400_def by (rule div_step) simp
  have d: "p400 \<longrightarrow> p100"
    unfolding p400_def p100_def using dvd_mod_0 [of 100 400 y] by simp
  have e: "p100 \<longrightarrow> p4"
    unfolding p4_def p100_def using dvd_mod_0 [of 4 100 y] by simp
  have leap: "is_leap_year y \<longleftrightarrow> p4 \<and> (\<not> p100 \<or> p400)"
    by (simp add: is_leap_year_def p4_def p100_def p400_def)
  have corr: "(if is_leap_year y then 366 else 365)
      = 365 + (if p4 then 1 else 0) - (if p100 then 1 else 0) + (if p400 then (1::int) else 0)"
    unfolding leap using d e by (cases p4; cases p100; cases p400) simp_all
  have "days_before_year (y + 1) = 365 * y + y div 4 - y div 100 + y div 400"
    by (simp add: days_before_year_def)
  also have "\<dots> = 365 * (y - 1) + (y - 1) div 4 - (y - 1) div 100 + (y - 1) div 400
      + (365 + (if p4 then 1 else 0) - (if p100 then 1 else 0) + (if p400 then 1 else 0))"
    using a b c by (rule leap_sum)
  finally show ?thesis
    unfolding corr days_before_year_def .
qed

lemma month_parts:
  fixes y m :: int
  assumes "1 \<le> m" and "m \<le> 12"
  shows "(y * 12 + (m - 1)) div 12 = y" and "(y * 12 + (m - 1)) mod 12 = m - 1"
proof -
  have eq: "y * 12 + (m - 1) = 12 * y + (m - 1)" by simp
  show "(y * 12 + (m - 1)) div 12 = y"
    using assms int_div_pos_eq [of "y * 12 + (m - 1)" 12 y "m - 1"] eq by simp
  show "(y * 12 + (m - 1)) mod 12 = m - 1"
    using assms int_mod_pos_eq [of "y * 12 + (m - 1)" 12 y "m - 1"] eq by simp
qed

lemma mod_12_range: "0 \<le> (mi::int) mod 12 \<and> mi mod 12 < 12"
  using pos_mod_sign [of 12 mi] pos_mod_bound [of 12 mi] by simp

lemma month_end_of_ordinal:
  assumes "1 \<le> month d" "month d \<le> 12"
  shows "month_end (month_ordinal d) = Date (year d) (month d) (days_in_month (year d) (month d))"
  using month_parts [OF assms, of "year d"]
  by (simp add: month_end_def month_ordinal_def Let_def)

lemma month_ordinal_month_end: "month_ordinal (month_end mi) = mi"
proof -
  have "mi div 12 * 12 + mi mod 12 = mi" by (rule div_mult_mod_eq)
  then show ?thesis by (simp add: month_ordinal_def month_end_def Let_def)
qed

lemma valid_month_end: "valid_date (month_end mi)"
  using mod_12_range [of mi] days_in_month_bounds [of "mi div 12" "mi mod 12 + 1"]
  by (simp add: valid_date_def month_end_def Let_def)

lemma month_end_is_start:
  assumes "valid_date d"
  shows "month_end (month_ordinal d) = d \<longleftrightarrow> is_month_end d"
  using assms month_end_of_ordinal [of d]
  by (cases d) (auto simp: valid_date_def is_month_end_def)

lemma to_ordinal_month_end:
  "to_ordinal (month_end mi) =
     days_before_year (mi div 12) + days_before_month (mi div 12) (mi mod 12 + 1)
       + days_in_month (mi div 12) (mi mod 12 + 1)"
  by (simp add: to_ordinal_def month_end_def Let_def)

lemma succ_div_mod:
  fixes y k :: int
  assumes "0 < k"
  shows "(y + 1) div k = y div k + (if y mod k = k - 1 then 1 else 0)"
    and "(y + 1) mod k = (if y mod k = k - 1 then 0 else y mod k + 1)"
proof -
  have m: "0 \<le> y mod k" "y mod k < k"
    using assms pos_mod_sign [of k y] pos_mod_bound [of k y] by simp_all
  have y: "y = k * (y div k) + y mod k" by simp
  show "(y + 1) div k = y div k + (if y mod k = k - 1 then 1 else 0)"
  proof (cases "y mod k = k - 1")
    case True
    have "y + 1 = k * (y div k + 1) + 0"
      using y True by (simp add: distrib_left)
    from int_div_pos_eq [OF this] assms True show ?thesis by simp
  next
    case False
    with m have lt: "y mod k + 1 < k" by simp
    have "y + 1 = k * (y div k) + (y mod k + 1)" by simp
    from int_div_pos_eq [OF this] m lt False show ?thesis by simp
  qed
  show "(y + 1) mod k = (if y mod k = k - 1 then 0 else y mod k + 1)"
  proof (cases "y mod k = k - 1")
    case True
    have "y + 1 = k * (y div k + 1) + 0"
      using y True by (simp add: distrib_left)
    from int_mod_pos_eq [OF this] assms True show ?thesis by simp
  next
    case False
    with m have lt: "y mod k + 1 < k" by simp
    have "y + 1 = k * (y div k) + (y mod k + 1)" by simp
    from int_mod_pos_eq [OF this] m lt False show ?thesis by simp
  qed
qed

lemma to_ordinal_month_end_step:
  "to_ordinal (month_end (mi + 1)) =
     to_ordinal (month_end mi) + days_in_month ((mi + 1) div 12) ((mi + 1) mod 12 + 1)"
proof (cases "mi mod 12 = 11")
  case True
  have dv: "(mi + 1) div 12 = mi div 12 + 1" and md: "(mi + 1) mod 12 = 0"
    using succ_div_mod [of 12 mi] True by simp_all
  have "days_before_year (mi div 12 + 1)
      = days_before_year (mi div 12) + (days_before_month (mi div 12) 12 + 31)"
    unfolding days_before_month_12 by (rule days_before_year_Suc)
  moreover have "days_in_month (mi div 12) 12 = 31" by (simp add: days_in_month_def)
  ultimately show ?thesis
    unfolding to_ordinal_month_end dv md True
    by (simp add: days_before_month_1)
next
  case False
  have dv: "(mi + 1) div 12 = mi div 12" and md: "(mi + 1) mod 12 = mi mod 12 + 1"
    using succ_div_mod [of 12 mi] False by simp_all
  have "days_before_month (mi div 12) (mi mod 12 + 1 + 1)
      = days_before_month (mi div 12) (mi mod 12 + 1) + days_in_month (mi div 12) (mi mod 12 + 1)"
    using mod_12_range [of mi] by (intro days_before_month_Suc) simp
  then show ?thesis
    unfolding to_ordinal_month_end dv md by simp
qed

lemma to_ordinal_month_end_less_Suc:
  "to_ordinal (month_end mi) < to_ordinal (month_end (mi + 1))"
  using days_in_month_bounds [of "(mi + 1) div 12" "(mi + 1) mod 12 + 1"]
  unfolding to_ordinal_month_end_step by simp

lemma to_ordinal_month_end_add:
  "to_ordinal (month_end mi) \<le> to_ordinal (month_end (mi + int n))"
proof (induction n)
  case 0
  show ?case by simp
next
  case (Suc n)
  have eq: "mi + int (Suc n) = mi + int n + 1" by simp
  have "to_ordinal (month_end (mi + int n)) < to_ordinal (month_end (mi + int n + 1))"
    by (rule to_ordinal_month_end_less_Suc)
  with Suc show ?case unfolding eq by linarith
qed

lemma to_ordinal_month_end_mono:
  assumes "mi \<le> mj"
  shows "to_ordinal (month_end mi) \<le> to_ordinal (month_end mj)"
proof -
  have "mj = mi + int (nat (mj - mi))" using assms by simp
  then show ?thesis using to_ordinal_month_end_add [of mi "nat (mj - mi)"] by simp
qed

lemma to_ordinal_month_end_strict_mono:
  assumes "mi < mj"
  shows "to_ordinal (month_end mi) < to_ordinal (month_end mj)"
proof -
  have "to_ordinal (month_end mi) < to_ordinal (month_end (mi + 1))"
    by (rule to_ordinal_month_end_less_Suc)
  also have "\<dots> \<le> to_ordinal (month_end mj)"
    using assms by (intro to_ordinal_month_end_mono) simp
  finally show ?thesis .
qed

lemma to_ordinal_in_month:
  assumes "valid_date d"
  shows "to_ordinal (month_end (month_ordinal d - 1)) < to_ordinal d"
    and "to_ordinal d \<le> to_ordinal (month_end (month_ordinal d))"
proof -
  from assms have m: "1 \<le> month d" "month d \<le> 12"
    and dd: "1 \<le> day d" "day d \<le> days_in_month (year d) (month d)"
    by (simp_all add: valid_date_def)
  have me: "to_ordinal (month_end (month_ordinal d)) =
      days_before_year (year d) + days_before_month (year d) (month d)
        + days_in_month (year d) (month d)"
    unfolding month_end_of_ordinal [OF m] by (simp add: to_ordinal_def)
  show "to_ordinal d \<le> to_ordinal (month_end (month_ordinal d))"
    unfolding me using dd by (simp add: to_ordinal_def)
  have parts: "(month_ordinal d) div 12 = year d" "(month_ordinal d) mod 12 + 1 = month d"
    using month_parts [OF m, of "year d"] by (simp_all add: month_ordinal_def)
  have "to_ordinal (month_end (month_ordinal d - 1 + 1)) =
      to_ordinal (month_end (month_ordinal d - 1))
        + days_in_month ((month_ordinal d - 1 + 1) div 12) ((month_ordinal d - 1 + 1) mod 12 + 1)"
    by (rule to_ordinal_month_end_step)
  then have "to_ordinal (month_end (month_ordinal d)) =
      to_ordinal (month_end (month_ordinal d - 1)) + days_in_month (year d) (month d)"
    using parts by simp
  with me have "to_ordinal (month_end (month_ordinal d - 1)) =
      days_before_year (year d) + days_before_month (year d) (month d)"
    by simp
  then show "to_ordinal (month_end (month_ordinal d - 1)) < to_ordinal d"
    using dd by (simp add: to_ordinal_def)
qed

lemma to_ordinal_less_of_month:
  assumes "valid_date a" and "valid_date b" and "month_ordinal a < month_ordinal b"
  shows "to_ordinal a < to_ordinal b"
proof -
  have "to_ordinal a \<le> to_ordinal (month_end (month_ordinal a))"
    using assms(1) by (rule to_ordinal_in_month)
  also have "\<dots> \<le> to_ordinal (month_end (month_ordinal b - 1))"
    using assms(3) by (intro to_ordinal_month_end_mono) simp
  also have "\<dots> < to_ordinal b"
    using assms(2) by (rule to_ordinal_in_month)
  finally show ?thesis .
qed

lemma month_end_before:
  assumes "valid_date b" and "mi < month_ordinal b"
  shows "to_ordinal (month_end mi) < to_ordinal b"
proof -
  have "to_ordinal (month_end mi) \<le> to_ordinal (month_end (month_ordinal b - 1))"
    using assms(2) by (intro to_ordinal_month_end_mono) simp
  also have "\<dots> < to_ordinal b"
    using assms(1) by (rule to_ordinal_in_month)
  finally show ?thesis .
qed

lemma month_end_after:
  assumes "valid_date a" and "month_ordinal a \<le> mi"
  shows "to_ordinal a \<le> to_ordinal (month_end mi)"
proof -
  have "to_ordinal a \<le> to_ordinal (month_end (month_ordinal a))"
    using assms(1) by (rule to_ordinal_in_month)
  also have "\<dots> \<le> to_ordinal (month_end mi)"
    using assms(2) by (rule to_ordinal_month_end_mono)
  finally show ?thesis .
qed

lemma year_end_month_end: "year_end y = month_end (y * 12 + 11)"
proof -
  have "(y * 12 + (12 - 1)) div 12 = y" "(y * 12 + (12 - 1)) mod 12 = 12 - 1"
    by (rule month_parts; simp)+
  then show ?thesis by (simp add: year_end_def month_end_def days_in_month_def)
qed

lemma valid_year_end: "valid_date (year_end y)"
  unfolding year_end_month_end by (rule valid_month_end)

lemma month_ordinal_year_bounds:
  assumes "valid_date d"
  shows "year d * 12 \<le> month_ordinal d" and "month_ordinal d \<le> year d * 12 + 11"
  using assms by (simp_all add: valid_date_def month_ordinal_def)

lemma year_end_before:
  assumes "valid_date b" and "y < year b"
  shows "to_ordinal (year_end y) < to_ordinal b"
proof -
  have "y * 12 + 11 < month_ordinal b"
    using month_ordinal_year_bounds(1) [OF assms(1)] assms(2) by simp
  with assms(1) show ?thesis
    unfolding year_end_month_end by (rule month_end_before)
qed

lemma year_end_after:
  assumes "valid_date a" and "year a \<le> y"
  shows "to_ordinal a \<le> to_ordinal (year_end y)"
proof -
  have "month_ordinal a \<le> y * 12 + 11"
    using month_ordinal_year_bounds(2) [OF assms(1)] assms(2) by simp
  with assms(1) show ?thesis
    unfolding year_end_month_end by (rule month_end_after)
qed

lemma to_ordinal_less_of_year:
  assumes "valid_date a" and "valid_date b" and "year a < year b"
  shows "to_ordinal a < to_ordinal b"
proof -
  have "month_ordinal a < month_ordinal b"
    using month_ordinal_year_bounds(2) [OF assms(1)] month_ordinal_year_bounds(1) [OF assms(2)]
      assms(3) by simp
  with assms(1,2) show ?thesis by (rule to_ordinal_less_of_month)
qed

lemma year_end_is_start: "year_end (year d) = d \<longleftrightarrow> is_year_end d"
  by (cases d) (auto simp: year_end_def is_year_end_def)

lemma next_day_ordinal:
  assumes "valid_date d"
  shows "to_ordinal (next_day d) = to_ordinal d + 1" and "valid_date (next_day d)"
proof -
  from assms have m: "1 \<le> month d" "month d \<le> 12"
    and dd: "1 \<le> day d" "day d \<le> days_in_month (year d) (month d)"
    by (simp_all add: valid_date_def)
  consider (same) "day d < days_in_month (year d) (month d)"
    | (month) "day d = days_in_month (year d) (month d)" "month d < 12"
    | (year) "day d = days_in_month (year d) (month d)" "month d = 12"
    using dd m by linarith
  then have "to_ordinal (next_day d) = to_ordinal d + 1 \<and> valid_date (next_day d)"
  proof cases
    case same
    with m dd show ?thesis by (simp add: next_day_def to_ordinal_def valid_date_def)
  next
    case month
    have "days_before_month (year d) (month d + 1)
        = days_before_month (year d) (month d) + days_in_month (year d) (month d)"
      using m by (intro days_before_month_Suc)
    moreover have "1 \<le> days_in_month (year d) (month d + 1)"
      using days_in_month_bounds [of "year d" "month d + 1"] by simp
    ultimately show ?thesis
      using month m by (simp add: next_day_def to_ordinal_def valid_date_def)
  next
    case year
    have d31: "day d = 31" using year by (simp add: days_in_month_def)
    have "days_before_year (year d + 1)
        = days_before_year (year d) + (days_before_month (year d) 12 + 31)"
      unfolding days_before_month_12 by (rule days_before_year_Suc)
    then show ?thesis
      using year d31
      by (simp add: next_day_def to_ordinal_def valid_date_def days_before_month_1
          days_in_month_def)
  qed
  then show "to_ordinal (next_day d) = to_ordinal d + 1" and "valid_date (next_day d)"
    by simp_all
qed

lemma days_after_ordinal:
  assumes "valid_date d"
  shows "to_ordinal (days_after n d) = to_ordinal d + int n \<and> valid_date (days_after n d)"
proof (induction n)
  case 0
  with assms show ?case by simp
next
  case (Suc n)
  then show ?case using next_day_ordinal [of "days_after n d"] by simp
qed

lemma add_days_ordinal:
  assumes "valid_date d" and "0 \<le> n"
  shows "to_ordinal (add_days d n) = to_ordinal d + n" and "valid_date (add_days d n)"
  using days_after_ordinal [OF assms(1), of "nat n"] assms(2) by (simp_all add: add_days_def)

lemma butlast_upto: "butlast [i .. j] = [i .. j - 1]"
proof (cases "i \<le> j")
  case True
  then show ?thesis by (simp add: upto_rec2)
next
  case False
  then show ?thesis by simp
qed

lemma butlast_map_upto: "butlast (map f [i .. j]) = map f [i .. j - 1]"
  by (simp add: map_butlast [symmetric] butlast_upto)

lemma last_upto: "i \<le> j \<Longrightarrow> last [i .. j] = j"
  by (simp add: upto_rec2)

lemma map_shift_upto: "map (\<lambda>i. a + i) [0 .. k] = [a .. a + k]"
proof (rule nth_equalityI)
  show "length (map (\<lambda>i. a + i) [0 .. k]) = length [a .. a + k]" by simp
next
  fix n assume "n < length (map (\<lambda>i. a + i) [0 .. k])"
  then have n: "int n \<le> k" by simp
  then have "[0 .. k] ! n = int n" "[a .. a + k] ! n = a + int n" by simp_all
  with n show "map (\<lambda>i. a + i) [0 .. k] ! n = [a .. a + k] ! n" by simp
qed

lemma date_range_left_days:
  assumes "valid_date start"
  shows "date_range_left start end ''D''
      = map (add_days start) [0 .. to_ordinal end - to_ordinal start - 1]"
proof -
  define n where "n = to_ordinal end - to_ordinal start"
  have gen: "generate_range start end ''D'' = map (add_days start) [0 .. n]"
    by (simp add: generate_range_def n_def)
  show ?thesis
  proof (cases "0 \<le> n")
    case True
    have "last (map (add_days start) [0 .. n]) = add_days start n"
      using True by (simp add: last_map last_upto)
    then have "to_ordinal (last (map (add_days start) [0 .. n])) = to_ordinal end"
      using add_days_ordinal(1) [OF assms True] by (simp add: n_def)
    then show ?thesis
      using True unfolding date_range_left_def gen Let_def
      by (simp add: butlast_map_upto n_def)
  next
    case False
    then show ?thesis
      unfolding date_range_left_def gen Let_def by (simp add: n_def)
  qed
qed

lemma date_range_left_months:
  assumes "valid_date end"
  shows "date_range_left start end ''M''
      = map month_end [month_ordinal start .. month_ordinal end - 1]"
proof (cases "is_month_end end")
  case True
  have gen: "generate_range start end ''M''
      = map month_end [month_ordinal start .. month_ordinal end]"
    using True by (simp add: generate_range_def)
  show ?thesis
  proof (cases "month_ordinal start \<le> month_ordinal end")
    case le: True
    have "last (map month_end [month_ordinal start .. month_ordinal end])
        = month_end (month_ordinal end)"
      using le by (simp add: last_map last_upto)
    also have "\<dots> = end" using month_end_is_start [OF assms] True by simp
    finally show ?thesis
      using le unfolding date_range_left_def gen Let_def
      by (simp add: butlast_map_upto)
  next
    case False
    then show ?thesis unfolding date_range_left_def gen Let_def by simp
  qed
next
  case False
  have gen: "generate_range start end ''M''
      = map month_end [month_ordinal start .. month_ordinal end - 1]"
    using False by (simp add: generate_range_def)
  show ?thesis
  proof (cases "month_ordinal start \<le> month_ordinal end - 1")
    case le: True
    have "last (map month_end [month_ordinal start .. month_ordinal end - 1])
        = month_end (month_ordinal end - 1)"
      using le by (simp add: last_map last_upto)
    moreover have "to_ordinal (month_end (month_ordinal end - 1)) < to_ordinal end"
      using assms by (rule to_ordinal_in_month)
    ultimately show ?thesis
      unfolding date_range_left_def gen Let_def by simp
  next
    case False
    then show ?thesis unfolding date_range_left_def gen Let_def by simp
  qed
qed

lemma date_range_left_years:
  assumes "valid_date end"
  shows "date_range_left start end ''Y'' = map year_end [year start .. year end - 1]"
proof (cases "is_year_end end")
  case True
  have gen: "generate_range start end ''Y'' = map year_end [year start .. year end]"
    using True by (simp add: generate_range_def)
  show ?thesis
  proof (cases "year start \<le> year end")
    case le: True
    have "last (map year_end [year start .. year end]) = year_end (year end)"
      using le by (simp add: last_map last_upto)
    also have "\<dots> = end" using year_end_is_start [of "end"] True by simp
    finally show ?thesis
      using le unfolding date_range_left_def gen Let_def
      by (simp add: butlast_map_upto)
  next
    case False
    then show ?thesis unfolding date_range_left_def gen Let_def by simp
  qed
next
  case False
  have gen: "generate_range start end ''Y'' = map year_end [year start .. year end - 1]"
    using False by (simp add: generate_range_def)
  show ?thesis
  proof (cases "year start \<le> year end - 1")
    case le: True
    have "last (map year_end [year start .. year end - 1]) = year_end (year end - 1)"
      using le by (simp add: last_map last_upto)
    moreover have "to_ordinal (year_end (year end - 1)) < to_ordinal end"
      using assms by (intro year_end_before) simp_all
    ultimately show ?thesis
      unfolding date_range_left_def gen Let_def by simp
  next
    case False
    then show ?thesis unfolding date_range_left_def gen Let_def by simp
  qed
qed

lemma unit_difference_ordinal:
  "unit_difference u a b = unit_ordinal u b - unit_ordinal u a"
  by (simp add: unit_difference_def unit_ordinal_def)

lemma to_ordinal_less_of_unit:
  assumes "valid_date a" and "valid_date b" and "unit_ordinal u a < unit_ordinal u b"
  shows "to_ordinal a < to_ordinal b"
proof -
  consider "u = ''days''" | "u \<noteq> ''days''" "u = ''months''" | "u \<noteq> ''days''" "u \<noteq> ''months''"
    by blast
  then show ?thesis
  proof cases
    case 1
    with assms(3) show ?thesis by (simp add: unit_ordinal_def)
  next
    case 2
    with assms(3) have "month_ordinal a < month_ordinal b" by (simp add: unit_ordinal_def)
    with assms(1,2) show ?thesis by (rule to_ordinal_less_of_month)
  next
    case 3
    with assms(3) have "year a < year b" by (simp add: unit_ordinal_def)
    with assms(1,2) show ?thesis by (rule to_ordinal_less_of_year)
  qed
qed

lemma sorted_dates_of_units:
  assumes "sorted_wrt (<) (map (unit_ordinal u) ds)" and "\<forall>d \<in> set ds. valid_date d"
  shows "sorted_wrt (\<lambda>a b. to_ordinal a < to_ordinal b) ds"
proof -
  from assms(1) have s: "sorted_wrt (\<lambda>a b. unit_ordinal u a < unit_ordinal u b) ds"
    by (simp add: sorted_wrt_map)
  show ?thesis
  proof (rule sorted_wrt_mono_rel [OF _ s])
    fix a b
    assume "a \<in> set ds" "b \<in> set ds" "unit_ordinal u a < unit_ordinal u b"
    with assms(2) show "to_ordinal a < to_ordinal b"
      by (auto intro: to_ordinal_less_of_unit)
  qed
qed

lemma date_range_left_units:
  assumes "time_units \<in> {''days'', ''months'', ''years''}"
    and "valid_date start" and "valid_date end"
  shows "map (unit_ordinal time_units) (date_range_left start end (unit_frequency time_units))
           = [unit_ordinal time_units start .. unit_ordinal time_units end - 1]"
    and "\<forall>d \<in> set (date_range_left start end (unit_frequency time_units)).
           valid_date d \<and> to_ordinal start \<le> to_ordinal d \<and> to_ordinal d < to_ordinal end"
proof -
  let ?r = "date_range_left start end (unit_frequency time_units)"
  from assms(1) consider (days) "time_units = ''days''" | (months) "time_units = ''months''"
    | (years) "time_units = ''years''" by auto
  then have "map (unit_ordinal time_units) ?r
           = [unit_ordinal time_units start .. unit_ordinal time_units end - 1]
      \<and> (\<forall>d \<in> set ?r.
           valid_date d \<and> to_ordinal start \<le> to_ordinal d \<and> to_ordinal d < to_ordinal end)"
  proof cases
    case days
    let ?n = "to_ordinal end - to_ordinal start - 1"
    have r: "?r = map (add_days start) [0 .. ?n]"
      using days date_range_left_days [OF assms(2)] by (simp add: unit_frequency_def)
    have el: "to_ordinal (add_days start i) = to_ordinal start + i \<and> valid_date (add_days start i)"
      if "i \<in> set [0 .. ?n]" for i
      using that add_days_ordinal [OF assms(2), of i] by simp
    have "map to_ordinal ?r = map (\<lambda>i. to_ordinal start + i) [0 .. ?n]"
      unfolding r using el by (simp add: comp_def)
    also have "\<dots> = [to_ordinal start .. to_ordinal end - 1]"
      unfolding map_shift_upto by simp
    finally have "map (unit_ordinal time_units) ?r
           = [unit_ordinal time_units start .. unit_ordinal time_units end - 1]"
      using days by (simp add: unit_ordinal_def [abs_def])
    moreover have "\<forall>d \<in> set ?r.
           valid_date d \<and> to_ordinal start \<le> to_ordinal d \<and> to_ordinal d < to_ordinal end"
      unfolding r using el by auto
    ultimately show ?thesis by simp
  next
    case months
    have r: "?r = map month_end [month_ordinal start .. month_ordinal end - 1]"
      using months date_range_left_months [OF assms(3)] by (simp add: unit_frequency_def)
    have "map month_ordinal ?r = [month_ordinal start .. month_ordinal end - 1]"
      unfolding r by (simp add: comp_def month_ordinal_month_end)
    then have "map (unit_ordinal time_units) ?r
           = [unit_ordinal time_units start .. unit_ordinal time_units end - 1]"
      using months by (simp add: unit_ordinal_def [abs_def])
    moreover have "\<forall>d \<in> set ?r.
           valid_date d \<and> to_ordinal start \<le> to_ordinal d \<and> to_ordinal d < to_ordinal end"
      unfolding r
      using month_end_after [OF assms(2)] month_end_before [OF assms(3)] valid_month_end
      by auto
    ultimately show ?thesis by simp
  next
    case years
    have r: "?r = map year_end [year start .. year end - 1]"
      using years date_range_left_years [OF assms(3)] by (simp add: unit_frequency_def)
    have "map year ?r = [year start .. year end - 1]"
      unfolding r by (simp add: comp_def year_end_def)
    then have "map (unit_ordinal time_units) ?r
           = [unit_ordinal time_units start .. unit_ordinal time_units end - 1]"
      using years by (simp add: unit_ordinal_def [abs_def])
    moreover have "\<forall>d \<in> set ?r.
           valid_date d \<and> to_ordinal start \<le> to_ordinal d \<and> to_ordinal d < to_ordinal end"
      unfolding r
      using year_end_after [OF assms(2)] year_end_before [OF assms(3)] valid_year_end
      by auto
    ultimately show ?thesis by simp
  qed
  then show "map (unit_ordinal time_units) ?r
           = [unit_ordinal time_units start .. unit_ordinal time_units end - 1]"
    and "\<forall>d \<in> set ?r.
           valid_date d \<and> to_ordinal start \<le> to_ordinal d \<and> to_ordinal d < to_ordinal end"
    by simp_all
qed

lemma date_range_left_hd:
  assumes "time_units \<in> {''days'', ''months'', ''years''}"
    and "valid_date start" and "valid_date end"
    and "date_range_left start end (unit_frequency time_units) \<noteq> []"
  shows "hd (date_range_left start end (unit_frequency time_units)) = start \<longleftrightarrow>
           time_units = ''days'' \<or> time_units = ''months'' \<and> is_month_end start
           \<or> time_units = ''years'' \<and> is_year_end start"
proof -
  from assms(1) consider (days) "time_units = ''days''" | (months) "time_units = ''months''"
    | (years) "time_units = ''years''" by auto
  then show ?thesis
  proof cases
    case days
    have r: "date_range_left start end ''D''
        = map (add_days start) [0 .. to_ordinal end - to_ordinal start - 1]"
      by (rule date_range_left_days [OF assms(2)])
    with assms(4) days have "0 \<le> to_ordinal end - to_ordinal start - 1"
      by (simp add: unit_frequency_def)
    then have "hd (date_range_left start end ''D'') = add_days start 0"
      unfolding r by (simp add: upto_rec1)
    then show ?thesis using days by (simp add: unit_frequency_def add_days_def)
  next
    case months
    have r: "date_range_left start end ''M''
        = map month_end [month_ordinal start .. month_ordinal end - 1]"
      by (rule date_range_left_months [OF assms(3)])
    with assms(4) months have "month_ordinal start \<le> month_ordinal end - 1"
      by (simp add: unit_frequency_def)
    then have "hd (date_range_left start end ''M'') = month_end (month_ordinal start)"
      unfolding r by (simp add: upto_rec1)
    then show ?thesis
      using months month_end_is_start [OF assms(2)] by (simp add: unit_frequency_def)
  next
    case years
    have r: "date_range_left start end ''Y'' = map year_end [year start .. year end - 1]"
      by (rule date_range_left_years [OF assms(3)])
    with assms(4) years have "year start \<le> year end - 1"
      by (simp add: unit_frequency_def)
    then have "hd (date_range_left start end ''Y'') = year_end (year start)"
      unfolding r by (simp add: upto_rec1)
    then show ?thesis
      using years year_end_is_start [of start] by (simp add: unit_frequency_def)
  qed
qed

section \<open>Gap detection: results\<close>

lemma series_diff_gaps:
  "(filter (\<lambda>x. 1 < x) (series_diff xs) \<noteq> []) =
   (\<exists>i. Suc i < length xs \<and> 1 < xs ! Suc i - xs ! i)"
proof (induction xs rule: series_diff.induct)
  case (1 a b xs)
  have "(\<exists>i. Suc i < length (a # b # xs) \<and> 1 < (a # b # xs) ! Suc i - (a # b # xs) ! i) =
        (1 < b - a \<or> (\<exists>i. Suc i < length (b # xs) \<and> 1 < (b # xs) ! Suc i - (b # xs) ! i))"
    (is "?L = ?R")
  proof
    assume ?L
    then obtain i where i: "Suc i < length (a # b # xs)"
      "1 < (a # b # xs) ! Suc i - (a # b # xs) ! i" by blast
    show ?R
    proof (cases i)
      case 0
      with i show ?thesis by simp
    next
      case (Suc j)
      with i show ?thesis by auto
    qed
  next
    assume ?R
    then show ?L
    proof
      assume "1 < b - a"
      then have "Suc 0 < length (a # b # xs) \<and> 1 < (a # b # xs) ! Suc 0 - (a # b # xs) ! 0"
        by simp
      then show ?L by blast
    next
      assume "\<exists>i. Suc i < length (b # xs) \<and> 1 < (b # xs) ! Suc i - (b # xs) ! i"
      then obtain i where "Suc i < length (b # xs)" "1 < (b # xs) ! Suc i - (b # xs) ! i"
        by blast
      then have "Suc (Suc i) < length (a # b # xs) \<and>
          1 < (a # b # xs) ! Suc (Suc i) - (a # b # xs) ! Suc i" by simp
      then show ?L by blast
    qed
  qed
  with 1 show ?case by auto
qed simp_all

lemma series_diff_map_gaps:
  "(filter (\<lambda>x. 1 < x) (series_diff (map f xs)) \<noteq> []) =
   (\<exists>i. Suc i < length xs \<and> 1 < f (xs ! Suc i) - f (xs ! i))"
proof -
  have "\<And>i. Suc i < length xs \<Longrightarrow>
      map f xs ! Suc i - map f xs ! i = f (xs ! Suc i) - f (xs ! i)"
    by simp
  then show ?thesis
    unfolding series_diff_gaps by auto
qed

lemma gap_check_eq:
  assumes "time_units \<in> {''days'', ''months'', ''years''}"
  shows "gap_check dataset time_units =
     (if \<exists>i. Suc i < length dataset \<and>
           1 < unit_difference time_units (fst (dataset ! i)) (fst (dataset ! Suc i))
      then Inl GapError else Inr ())"
proof -
  have "time_units = ''days'' \<or> time_units = ''months'' \<or> time_units = ''years''"
    using assms by simp
  then show ?thesis
    by (elim disjE) (simp_all add: gap_check_def bind_def series_diff_map_gaps unit_difference_def)
qed

text \<open>
  C1.  Scenario A of the specification: the yearly series 2020, 2021, 2022 with linear
  rates, resampled to months.  The claim expects a table.  \<open>yearly_to_monthly\<close> runs
  the gap check at the unit \<open>months\<close>, not at the yearly unit of its input: two
  consecutive years are twelve monthly periods apart, and the call ends with the gap
  error.
\<close>

theorem yearly_to_monthly_scenario_A_raises:
  "yearly_to_monthly [(Date 2020 1 1, 100), (Date 2021 1 1, 150), (Date 2022 1 1, 200)] ''linear''
     = Inl GapError"
  by (simp add: yearly_to_monthly_def gap_check_def bind_def month_ordinal_def)

text \<open>
  C2.  For each of the units days, months and years, \<open>gap_check\<close> raises the gap error
  exactly when two consecutive dates are more than one period of the unit apart, and
  returns normally otherwise.  So it passes on a series whose consecutive dates are one
  period apart, fails on a series with a step of two periods, and passes on a series
  whose dates repeat or go backwards.
\<close>

theorem gap_check_raises_iff:
  assumes "time_units \<in> {''days'', ''months'', ''years''}"
  shows "(gap_check dataset time_units = Inl GapError \<longleftrightarrow>
            (\<exists>i. Suc i < length dataset \<and>
               1 < unit_difference time_units (fst (dataset ! i)) (fst (dataset ! Suc i))))
       \<and> (gap_check dataset time_units \<noteq> Inl GapError \<longrightarrow> gap_check dataset time_units = Inr ())
       \<and> ((\<forall>i. Suc i < length dataset \<longrightarrow>
              unit_difference time_units (fst (dataset ! i)) (fst (dataset ! Suc i)) = 1)
            \<longrightarrow> gap_check dataset time_units = Inr ())
       \<and> ((\<exists>i. Suc i < length dataset \<and>
              unit_difference time_units (fst (dataset ! i)) (fst (dataset ! Suc i)) = 2)
            \<longrightarrow> gap_check dataset time_units = Inl GapError)
       \<and> ((\<forall>i. Suc i < length dataset \<longrightarrow>
              unit_difference time_units (fst (dataset ! i)) (fst (dataset ! Suc i)) \<le> 0)
            \<longrightarrow> gap_check dataset time_units = Inr ())"
  unfolding gap_check_eq [OF assms] by (auto; fastforce)

theorem gap_check_raises_iff_witness:
  "''months'' \<in> {''days'', ''months'', ''years''}
   \<and> gap_check [(Date 2020 1 1, 1), (Date 2020 3 1, 2)] ''months'' = Inl GapError
   \<and> (\<exists>i. Suc i < length [(Date 2020 1 1, 1::real), (Date 2020 3 1, 2)] \<and>
        unit_difference ''months'' (fst ([(Date 2020 1 1, 1::real), (Date 2020 3 1, 2)] ! i))
          (fst ([(Date 2020 1 1, 1::real), (Date 2020 3 1, 2)] ! Suc i)) = 2)
   \<and> gap_check [(Date 2020 1 1, 1), (Date 2020 2 1, 2)] ''months'' = Inr ()
   \<and> gap_check [(Date 2020 2 1, 1), (Date 2020 2 1, 2), (Date 2020 1 1, 2)] ''months'' = Inr ()"
proof -
  have u: "''months'' \<in> {''days'', ''months'', ''years''}" by simp
  have gap: "\<exists>i. Suc i < length [(Date 2020 1 1, 1::real), (Date 2020 3 1, 2)] \<and>
        unit_difference ''months'' (fst ([(Date 2020 1 1, 1::real), (Date 2020 3 1, 2)] ! i))
          (fst ([(Date 2020 1 1, 1::real), (Date 2020 3 1, 2)] ! Suc i)) = 2"
    by (rule exI [of _ 0]) (simp add: unit_difference_def month_ordinal_def)
  have contiguous: "\<forall>i. Suc i < length [(Date 2020 1 1, 1::real), (Date 2020 2 1, 2)] \<longrightarrow>
        unit_difference ''months'' (fst ([(Date 2020 1 1, 1::real), (Date 2020 2 1, 2)] ! i))
          (fst ([(Date 2020 1 1, 1::real), (Date 2020 2 1, 2)] ! Suc i)) = 1"
    by (simp add: unit_difference_def month_ordinal_def)
  have backwards:
    "\<forall>i. Suc i < length [(Date 2020 2 1, 1::real), (Date 2020 2 1, 2), (Date 2020 1 1, 2)] \<longrightarrow>
        unit_difference ''months''
          (fst ([(Date 2020 2 1, 1::real), (Date 2020 2 1, 2), (Date 2020 1 1, 2)] ! i))
          (fst ([(Date 2020 2 1, 1::real), (Date 2020 2 1, 2), (Date 2020 1 1, 2)] ! Suc i)) \<le> 0"
    by (simp add: unit_difference_def month_ordinal_def less_Suc_eq)
  show ?thesis
    using u gap
      gap_check_raises_iff [OF u, of "[(Date 2020 1 1, 1), (Date 2020 3 1, 2)]"]
      gap_check_raises_iff [OF u, of "[(Date 2020 1 1, 1), (Date 2020 2 1, 2)]"] contiguous
      gap_check_raises_iff [OF u, of "[(Date 2020 2 1, 1), (Date 2020 2 1, 2), (Date 2020 1 1, 2)]"]
      backwards
    by blast
qed

section \<open>The date range of a segment: results\<close>

lemma collect_map_Inr: "collect (map (\<lambda>x. Inr (g x)) xs) = Inr (map g xs)"
  by (induction xs) simp_all

lemma collect_Inr: "collect ms = Inr ys \<Longrightarrow> ms = map Inr ys"
  by (induction ms arbitrary: ys) (auto split: sum.splits)

lemma add_daterange_units:
  assumes "time_units \<in> {''days'', ''months'', ''years''}" and "dataset \<noteq> []"
  shows "add_daterange dataset time_units =
     Inr (map (\<lambda>x. x\<lparr>date_range :=
        Some (date_range_left (start_date x) (end_date x) (unit_frequency time_units))\<rparr>) dataset)"
proof -
  from assms(1) consider "time_units = ''days''" | "time_units = ''months''"
    | "time_units = ''years''" by auto
  then show ?thesis
    using assms(2)
    by cases (simp_all add: add_daterange_def assign_rows_def collect_map_Inr unit_frequency_def)
qed

lemma upto_nth_diff:
  assumes "map f xs = [p .. q]" and "Suc i < length xs"
  shows "f (xs ! Suc i) - f (xs ! i) = 1"
proof -
  have len: "length xs = length [p .. q]" using assms(1) by (metis length_map)
  with assms(2) have b: "p + int (Suc i) \<le> q" by simp
  then have "[p .. q] ! Suc i = p + int (Suc i)" "[p .. q] ! i = p + int i"
    by (simp_all del: of_nat_Suc)
  moreover have "f (xs ! Suc i) = map f xs ! Suc i" "f (xs ! i) = map f xs ! i"
    using assms(2) by simp_all
  ultimately show ?thesis using assms(1) by simp
qed


text \<open>
  What \<open>add_daterange\<close> generates for one segment with valid dates, at each of the three
  units: an ordered range with exactly one date for each period of the unit from the
  period of the start date up to, and excluding, the period of the end date; every date
  lies between the start date (included) and the end date (excluded), and
  \<open>add_timesteps\<close> stores the length of the range as the step count.  The first date
  is the start date for days; for months (years) it is the end of the month (year) of the
  start date, so it is the start date only when that is itself a month end (year end).
\<close>

lemma add_daterange_segment:
  assumes "time_units \<in> {''days'', ''months'', ''years''}"
    and "valid_date (start_date x)" and "valid_date (end_date x)"
  shows "\<exists>dates.
      add_daterange [x] time_units = Inr [x\<lparr>date_range := Some dates\<rparr>]
    \<and> add_timesteps [x\<lparr>date_range := Some dates\<rparr>]
        = Inr [x\<lparr>date_range := Some dates, timesteps := Some (int (length dates))\<rparr>]
    \<and> map (unit_ordinal time_units) dates
        = [unit_ordinal time_units (start_date x) .. unit_ordinal time_units (end_date x) - 1]
    \<and> sorted_wrt (\<lambda>a b. to_ordinal a < to_ordinal b) dates
    \<and> (\<forall>d \<in> set dates.
          to_ordinal (start_date x) \<le> to_ordinal d \<and> to_ordinal d < to_ordinal (end_date x))
    \<and> (\<forall>i. Suc i < length dates \<longrightarrow> unit_difference time_units (dates ! i) (dates ! Suc i) = 1)
    \<and> (dates \<noteq> [] \<longrightarrow>
          (hd dates = start_date x \<longleftrightarrow>
             time_units = ''days'' \<or> time_units = ''months'' \<and> is_month_end (start_date x)
             \<or> time_units = ''years'' \<and> is_year_end (start_date x)))"
proof -
  define dates where
    "dates = date_range_left (start_date x) (end_date x) (unit_frequency time_units)"
  have a: "add_daterange [x] time_units = Inr [x\<lparr>date_range := Some dates\<rparr>]"
    using add_daterange_units [OF assms(1), of "[x]"] by (simp add: dates_def)
  have b: "add_timesteps [x\<lparr>date_range := Some dates\<rparr>]
        = Inr [x\<lparr>date_range := Some dates, timesteps := Some (int (length dates))\<rparr>]"
    by (simp add: add_timesteps_def assign_rows_def)
  have c: "map (unit_ordinal time_units) dates
        = [unit_ordinal time_units (start_date x) .. unit_ordinal time_units (end_date x) - 1]"
    unfolding dates_def by (rule date_range_left_units [OF assms])
  have v: "\<forall>d \<in> set dates. valid_date d \<and>
          to_ordinal (start_date x) \<le> to_ordinal d \<and> to_ordinal d < to_ordinal (end_date x)"
    unfolding dates_def by (rule date_range_left_units [OF assms])
  have d: "sorted_wrt (\<lambda>a b. to_ordinal a < to_ordinal b) dates"
  proof (rule sorted_dates_of_units)
    show "sorted_wrt (<) (map (unit_ordinal time_units) dates)" unfolding c by simp
    show "\<forall>d \<in> set dates. valid_date d" using v by blast
  qed
  have e: "\<forall>d \<in> set dates.
          to_ordinal (start_date x) \<le> to_ordinal d \<and> to_ordinal d < to_ordinal (end_date x)"
    using v by blast
  have f: "\<forall>i. Suc i < length dates \<longrightarrow> unit_difference time_units (dates ! i) (dates ! Suc i) = 1"
    unfolding unit_difference_ordinal using upto_nth_diff [OF c] by blast
  have g: "dates \<noteq> [] \<longrightarrow>
          (hd dates = start_date x \<longleftrightarrow>
             time_units = ''days'' \<or> time_units = ''months'' \<and> is_month_end (start_date x)
             \<or> time_units = ''years'' \<and> is_year_end (start_date x))"
    unfolding dates_def using date_range_left_hd [OF assms] by blast
  from a b c d e f g show ?thesis by blast
qed

lemmas calendar_eval =
  to_ordinal_def days_before_year_def days_before_month_def days_in_month_def is_leap_year_def
  month_ordinal_def month_end_def year_end_def is_month_end_def is_year_end_def
  upto_rec1

text \<open>
  C3.  The claim holds but for the first element of the range.  With the unit months,
  the segment from 1 January to 1 March 2020 gets the range 31 January, 29 February:
  two dates one month apart, in the half-open interval, but the first of them is not the
  start date of the segment.  The frequencies \<open>M\<close> and \<open>Y\<close> that \<open>add_daterange\<close>
  passes to \<open>pd.date_range\<close> are those of month ends and year ends.
\<close>

theorem add_daterange_months_first_date:
  "add_daterange [segment_B] ''months''
     = Inr [segment_B\<lparr>date_range := Some [Date 2020 1 31, Date 2020 2 29]\<rparr>]
   \<and> start_date segment_B = Date 2020 1 1"
proof -
  have u: "''months'' \<in> {''days'', ''months'', ''years''}" by simp
  have ne: "[segment_B] \<noteq> []" by simp
  have sd: "start_date segment_B = Date 2020 1 1" and ed: "end_date segment_B = Date 2020 3 1"
    by (simp_all add: segment_B_def)
  have r: "date_range_left (Date 2020 1 1) (Date 2020 3 1) ''M''
      = [Date 2020 1 31, Date 2020 2 29]"
    by (simp add: date_range_left_def generate_range_def calendar_eval)
  have "add_daterange [segment_B] ''months''
     = Inr [segment_B\<lparr>date_range := Some [Date 2020 1 31, Date 2020 2 29]\<rparr>]"
    unfolding add_daterange_units [OF u ne] by (simp add: sd ed unit_frequency_def r)
  then show ?thesis using sd by (rule conjI)
qed

section \<open>Rates and interpolated values: results\<close>

text \<open>
  C6.  For a segment with a step count \<open>k\<close> of at least one, the rate that \<open>add_rate\<close>
  estimates leads from the start value to the end value in \<open>k\<close> steps of
  \<open>add_interpolated_values\<close>: the start value plus \<open>k\<close> times the linear rate is the
  end value, and, when both values are nonzero and of the same sign, the start value
  times the \<open>k\<close>-th power of the exponential rate is the end value.  Over the reals both
  equations are exact.
\<close>

theorem rate_round_trip:
  assumes "timesteps x = Some k" and "1 \<le> k"
  shows "(\<exists>r. add_rate [x] ''linear'' = Inr [x\<lparr>rate := Some r\<rparr>]
              \<and> start_value x + of_int k * r = end_value x)
       \<and> ((0 < start_value x \<and> 0 < end_value x \<or> start_value x < 0 \<and> end_value x < 0) \<longrightarrow>
            (\<exists>r. add_rate [x] ''exponential'' = Inr [x\<lparr>rate := Some r\<rparr>]
              \<and> start_value x * r ^ nat k = end_value x))"
proof (intro conjI impI)
  show "\<exists>r. add_rate [x] ''linear'' = Inr [x\<lparr>rate := Some r\<rparr>]
              \<and> start_value x + of_int k * r = end_value x"
  proof -
    have "add_rate [x] ''linear'' =
        Inr [x\<lparr>rate := Some ((end_value x - start_value x) / of_int k)\<rparr>]"
      using assms by (simp add: add_rate_def linear_rate_def py_div_def bind_def)
    moreover have "start_value x + of_int k * ((end_value x - start_value x) / of_int k)
        = end_value x"
      using assms by simp
    ultimately show ?thesis by blast
  qed
next
  assume sgn: "0 < start_value x \<and> 0 < end_value x \<or> start_value x < 0 \<and> end_value x < 0"
  define q where "q = end_value x / start_value x"
  from sgn have q: "0 < q" and nz: "start_value x \<noteq> 0"
    unfolding q_def by (auto simp: zero_less_divide_iff)
  have k: "real_of_int k = real (nat k)" "0 < nat k" using assms by auto
  have "(q powr (1 / of_int k)) ^ nat k = q"
  proof -
    have "(q powr (1 / of_int k)) ^ nat k = (q powr (1 / of_int k)) powr real (nat k)"
      using q by (simp add: powr_realpow)
    also have "\<dots> = q powr ((1 / of_int k) * real (nat k))" by (simp add: powr_powr)
    also have "\<dots> = q" using k q by simp
    finally show ?thesis .
  qed
  then have "start_value x * (q powr (1 / of_int k)) ^ nat k = end_value x"
    using nz by (simp add: q_def)
  moreover have "add_rate [x] ''exponential'' = Inr [x\<lparr>rate := Some (q powr (1 / of_int k))\<rparr>]"
    using assms q nz
    by (simp add: add_rate_def exponential_rate_def py_div_def py_pow_def bind_def q_def)
  ultimately show "\<exists>r. add_rate [x] ''exponential'' = Inr [x\<lparr>rate := Some r\<rparr>]
              \<and> start_value x * r ^ nat k = end_value x" by blast
qed

theorem rate_round_trip_witness:
  "timesteps segment_A = Some 12 \<and> (1::int) \<le> 12
   \<and> (0 < start_value segment_A \<and> 0 < end_value segment_A)
   \<and> (\<exists>r. add_rate [segment_A] ''linear'' = Inr [segment_A\<lparr>rate := Some r\<rparr>]
          \<and> start_value segment_A + of_int 12 * r = end_value segment_A)
   \<and> (\<exists>r. add_rate [segment_A] ''exponential'' = Inr [segment_A\<lparr>rate := Some r\<rparr>]
          \<and> start_value segment_A * r ^ nat 12 = end_value segment_A)"
proof -
  have k: "timesteps segment_A = Some 12" by (simp add: segment_A_def)
  have pos: "0 < start_value segment_A \<and> 0 < end_value segment_A"
    by (simp add: segment_A_def)
  have le: "(1::int) \<le> 12" by simp
  show ?thesis
    using k pos le rate_round_trip [OF k le] by blast
qed



lemma collect_fails: "Inl e \<in> set xs \<Longrightarrow> \<exists>e'. collect xs = Inl e'"
  by (induction xs) (auto split: sum.splits)


text \<open>
  C7.  For a segment with a step count \<open>k\<close> of at least one and a rate \<open>r\<close>,
  \<open>add_interpolated_values\<close> produces exactly \<open>k\<close> values, the \<open>n\<close>-th (from zero)
  being the start value plus \<open>n\<close> times \<open>r\<close> for the linear model and the start value
  times the \<open>n\<close>-th power of \<open>r\<close> for the exponential one; the first is the start
  value itself.  The step count that \<open>add_timesteps\<close> stores is the length of the
  segment's date range.
\<close>

theorem interpolated_values_sequence:
  assumes "timesteps x = Some k" and "rate x = Some r" and "1 \<le> k"
  shows "(\<exists>vs. add_interpolated_values [x] ''linear'' = Inr [x\<lparr>interpolated := Some vs\<rparr>]
            \<and> int (length vs) = k
            \<and> (\<forall>n < nat k. vs ! n = start_value x + real n * r)
            \<and> vs ! 0 = start_value x)
       \<and> (\<exists>vs. add_interpolated_values [x] ''exponential'' = Inr [x\<lparr>interpolated := Some vs\<rparr>]
            \<and> int (length vs) = k
            \<and> (\<forall>n < nat k. vs ! n = start_value x * r ^ n)
            \<and> vs ! 0 = start_value x)
       \<and> (\<forall>dates. date_range x = Some dates \<longrightarrow>
            add_timesteps [x] = Inr [x\<lparr>timesteps := Some (int (length dates))\<rparr>])"
proof (intro conjI)
  let ?lin = "map (\<lambda>n. start_value x + real n * r) [0 ..< nat k]"
  have "add_interpolated_values [x] ''linear'' = Inr [x\<lparr>interpolated := Some ?lin\<rparr>]"
    using assms
    by (simp add: add_interpolated_values_def assign_rows_def linear_values_def bind_def)
  moreover have "int (length ?lin) = k" using assms by simp
  moreover have "\<forall>n < nat k. ?lin ! n = start_value x + real n * r" by simp
  moreover have "?lin ! 0 = start_value x" using assms by simp
  ultimately show "\<exists>vs. add_interpolated_values [x] ''linear'' = Inr [x\<lparr>interpolated := Some vs\<rparr>]
            \<and> int (length vs) = k
            \<and> (\<forall>n < nat k. vs ! n = start_value x + real n * r)
            \<and> vs ! 0 = start_value x" by blast
next
  let ?ex = "map (\<lambda>n. start_value x * r ^ n) [0 ..< nat k]"
  have "add_interpolated_values [x] ''exponential'' = Inr [x\<lparr>interpolated := Some ?ex\<rparr>]"
    using assms
    by (simp add: add_interpolated_values_def assign_rows_def exponential_values_def bind_def)
  moreover have "int (length ?ex) = k" using assms by simp
  moreover have "\<forall>n < nat k. ?ex ! n = start_value x * r ^ n" by simp
  moreover have "?ex ! 0 = start_value x" using assms by simp
  ultimately show "\<exists>vs. add_interpolated_values [x] ''exponential'' = Inr [x\<lparr>interpolated := Some vs\<rparr>]
            \<and> int (length vs) = k
            \<and> (\<forall>n < nat k. vs ! n = start_value x * r ^ n)
            \<and> vs ! 0 = start_value x" by blast
next
  show "\<forall>dates. date_range x = Some dates \<longrightarrow>
            add_timesteps [x] = Inr [x\<lparr>timesteps := Some (int (length dates))\<rparr>]"
    by (simp add: add_timesteps_def assign_rows_def)
qed

theorem interpolated_values_sequence_witness:
  "timesteps segment_A_rated = Some 12 \<and> rate segment_A_rated = Some (25 / 6) \<and> (1::int) \<le> 12
   \<and> (\<exists>vs. add_interpolated_values [segment_A_rated] ''linear''
              = Inr [segment_A_rated\<lparr>interpolated := Some vs\<rparr>]
          \<and> int (length vs) = 12 \<and> vs ! 0 = 100)
   \<and> (\<exists>vs. add_interpolated_values [segment_A_rated] ''exponential''
              = Inr [segment_A_rated\<lparr>interpolated := Some vs\<rparr>]
          \<and> int (length vs) = 12 \<and> vs ! 0 = 100)
   \<and> add_timesteps [segment_A_rated] = Inr [segment_A_rated\<lparr>timesteps :=
        Some (int (length (date_range_left (Date 2020 1 1) (Date 2021 1 1) ''M'')))\<rparr>]"
proof -
  have k: "timesteps segment_A_rated = Some 12"
    by (simp add: segment_A_rated_def segment_A_def)
  have r: "rate segment_A_rated = Some (25 / 6)"
    by (simp add: segment_A_rated_def)
  have le: "(1::int) \<le> 12" by simp
  have dr: "date_range segment_A_rated
      = Some (date_range_left (Date 2020 1 1) (Date 2021 1 1) ''M'')"
    by (simp add: segment_A_rated_def segment_A_def)
  have s: "start_value segment_A_rated = 100"
    by (simp add: segment_A_rated_def segment_A_def)
  note th = interpolated_values_sequence [OF k r le]
  from th [THEN conjunct1] obtain vs where vs:
    "add_interpolated_values [segment_A_rated] ''linear''
       = Inr [segment_A_rated\<lparr>interpolated := Some vs\<rparr>]"
    "int (length vs) = 12" "vs ! 0 = start_value segment_A_rated"
    by (elim exE conjE)
  from th [THEN conjunct2, THEN conjunct1] obtain ws where ws:
    "add_interpolated_values [segment_A_rated] ''exponential''
       = Inr [segment_A_rated\<lparr>interpolated := Some ws\<rparr>]"
    "int (length ws) = 12" "ws ! 0 = start_value segment_A_rated"
    by (elim exE conjE)
  have lin: "\<exists>vs. add_interpolated_values [segment_A_rated] ''linear''
              = Inr [segment_A_rated\<lparr>interpolated := Some vs\<rparr>]
          \<and> int (length vs) = 12 \<and> vs ! 0 = 100"
    using vs unfolding s by (intro exI conjI)
  have ex: "\<exists>vs. add_interpolated_values [segment_A_rated] ''exponential''
              = Inr [segment_A_rated\<lparr>interpolated := Some vs\<rparr>]
          \<and> int (length vs) = 12 \<and> vs ! 0 = 100"
    using ws unfolding s by (intro exI conjI)
  have ts: "add_timesteps [segment_A_rated] = Inr [segment_A_rated\<lparr>timesteps :=
        Some (int (length (date_range_left (Date 2020 1 1) (Date 2021 1 1) ''M'')))\<rparr>]"
    using th [THEN conjunct2, THEN conjunct2, rule_format, OF dr] .
  from k r le lin ex ts show ?thesis by (intro conjI)
qed

text \<open>
  C10.  For a segment whose start value is zero the exponential rate is not computed:
  the division of the end value by the start value raises (the row that \<open>apply\<close> hands
  over holds Python numbers), and so does \<open>add_rate\<close> on any table with such a segment.
  No finite rate is produced.
\<close>

theorem exponential_rate_zero_start:
  assumes "start_value x = 0"
  shows "exponential_rate x = Inl ZeroDivisionError
       \<and> (x \<in> set dataset \<longrightarrow> (\<exists>e. add_rate dataset ''exponential'' = Inl e))"
proof -
  have r: "exponential_rate x = Inl ZeroDivisionError"
    using assms by (simp add: exponential_rate_def py_div_def bind_def)
  moreover have "\<exists>e. add_rate dataset ''exponential'' = Inl e" if "x \<in> set dataset"
  proof -
    have "Inl ZeroDivisionError
        \<in> set (map (\<lambda>x. bind (exponential_rate x) (\<lambda>r. Inr (x\<lparr>rate := Some r\<rparr>))) dataset)"
      using that r by (force simp: bind_def)
    from collect_fails [OF this] show ?thesis by (simp add: add_rate_def)
  qed
  ultimately show ?thesis by blast
qed

theorem exponential_rate_zero_start_witness:
  "start_value segment_zero = 0 \<and> segment_zero \<in> set [segment_A, segment_zero]
   \<and> exponential_rate segment_zero = Inl ZeroDivisionError
   \<and> (\<exists>e. add_rate [segment_A, segment_zero] ''exponential'' = Inl e)"
proof -
  have z: "start_value segment_zero = 0" by (simp add: segment_zero_def)
  have m: "segment_zero \<in> set [segment_A, segment_zero]" by simp
  show ?thesis
    using z m exponential_rate_zero_start [OF z, of "[segment_A, segment_zero]"] by blast
qed

section \<open>The entry points: results\<close>














text \<open>
  C5.  Scenario C of the specification: the series grows by ten each year, the anchor is
  its last date, three steps ahead, two steps of history.  \<open>extrapolate\<close> moves the
  anchor date by \<open>past_timesteps\<close> forwards, to 2024, so the window from there to the
  anchor holds no row, no rate is estimated, and the call does not produce the four
  expected values.  With \<open>- 2\<close> in place of \<open>2\<close> the window is the two years before
  the anchor and the values are the expected ones.
\<close>

theorem extrapolate_scenario_C_empty_window:
  "date_delta ''years'' (Date 2022 1 1) 2 = Inr (Date 2024 1 1)
   \<and> filter_data series_C (Date 2024 1 1) (Date 2022 1 1) True = []
   \<and> extrapolate series_C ''linear'' ''years'' (Date 2022 1 1) 3 2 = Inl NotReal
   \<and> extrapolate series_C ''linear'' ''years'' (Date 2022 1 1) 3 (- 2)
       = Inr [(Date 2022 12 31, 120), (Date 2023 12 31, 130), (Date 2024 12 31, 140),
              (Date 2025 12 31, 150)]"
  by (simp add: series_C_def extrapolate_def date_delta_def add_years_def filter_data_def
      to_ordinal_def days_before_year_def days_before_month_def days_in_month_def
      is_leap_year_def gap_check_def bind_def add_rate_def linear_rate_def py_div_def
      column_def mean_def extrapolated_dataset_def time_units_dict_def date_range_periods_def
      year_end_def upto_rec1 upt_rec)

text \<open>
  What \<open>extrapolated_dataset\<close> returns, for both rate types, the three units and a
  number of future steps that is not negative: that number plus one rows; the value of
  row \<open>n\<close> is the anchor value plus \<open>n\<close> times the rate (linear) or the anchor value
  times the \<open>n\<close>-th power of the rate (exponential), and the value of row zero is the
  anchor value.  The date of row \<open>n\<close> is \<open>n\<close> days after the anchor date for days, and
  the end of the \<open>n\<close>-th month (year) from the month (year) of the anchor date for
  months (years).
\<close>

lemma extrapolated_dataset_sequence:
  assumes "rate_type \<in> {''linear'', ''exponential''}"
    and "time_units \<in> {''days'', ''months'', ''years''}"
    and "0 \<le> future_timesteps"
  shows "\<exists>out. extrapolated_dataset rate_type time_units r anchor_date anchor_value future_timesteps
            = Inr out
          \<and> int (length out) = future_timesteps + 1
          \<and> (\<forall>n \<le> nat future_timesteps.
                snd (out ! n) =
                  (if rate_type = ''linear'' then anchor_value + r * real n
                   else anchor_value * r ^ n)
              \<and> fst (out ! n) =
                  (if time_units = ''days'' then add_days anchor_date (int n)
                   else if time_units = ''months'' then month_end (month_ordinal anchor_date + int n)
                   else year_end (year anchor_date + int n)))
          \<and> snd (out ! 0) = anchor_value
          \<and> (time_units = ''days'' \<longrightarrow> fst (out ! 0) = anchor_date)
          \<and> (time_units = ''months'' \<and> valid_date anchor_date \<longrightarrow>
                (fst (out ! 0) = anchor_date \<longleftrightarrow> is_month_end anchor_date))
          \<and> (time_units = ''years'' \<longrightarrow>
                (fst (out ! 0) = anchor_date \<longleftrightarrow> is_year_end anchor_date))"
proof -
  define freq where "freq = (if time_units = ''days'' then ''D''
     else if time_units = ''months'' then ''M'' else ''Y'')"
  define dates where "dates = date_range_periods anchor_date (future_timesteps + 1) freq"
  define vals where "vals = map (\<lambda>n. if rate_type = ''linear'' then anchor_value + r * real n
       else anchor_value * r ^ n) [0 ..< nat (future_timesteps + 1)]"
  have tu: "time_units_dict time_units = Some freq"
    using assms(2) by (auto simp: time_units_dict_def freq_def)
  have out: "extrapolated_dataset rate_type time_units r anchor_date anchor_value future_timesteps
      = Inr (zip dates vals)"
    using assms(1) tu by (auto simp: extrapolated_dataset_def dates_def vals_def)
  have len_d: "length dates = nat (future_timesteps + 1)"
    using assms(3) by (simp add: dates_def date_range_periods_def)
  have len_v: "length vals = nat (future_timesteps + 1)" by (simp add: vals_def)
  have nth_d: "dates ! n =
       (if time_units = ''days'' then add_days anchor_date (int n)
        else if time_units = ''months'' then month_end (month_ordinal anchor_date + int n)
        else year_end (year anchor_date + int n))" if "n \<le> nat future_timesteps" for n
  proof -
    have n: "n < nat (future_timesteps + 1)" using that assms(3) by linarith
    then have "\<And>a. [a .. a + (future_timesteps + 1) - 1] ! n = a + int n"
      by (intro nth_upto) linarith
    moreover have "[0 .. future_timesteps + 1 - 1] ! n = int n"
      using nth_upto [of 0 n "future_timesteps"] n by simp
    moreover have "\<And>a. n < length [a .. a + (future_timesteps + 1) - 1]" using n by simp
    moreover have "n < length [0 .. future_timesteps + 1 - 1]" using n by simp
    ultimately show ?thesis
      using assms(2) by (auto simp: dates_def date_range_periods_def freq_def)
  qed
  have nth_v: "vals ! n = (if rate_type = ''linear'' then anchor_value + r * real n
       else anchor_value * r ^ n)" if "n \<le> nat future_timesteps" for n
  proof -
    have "n < nat (future_timesteps + 1)" using that assms(3) by linarith
    then show ?thesis by (simp add: vals_def)
  qed
  have nth_zip: "fst (zip dates vals ! n) = dates ! n \<and> snd (zip dates vals ! n) = vals ! n"
    if "n \<le> nat future_timesteps" for n
  proof -
    have "n < nat (future_timesteps + 1)" using that assms(3) by linarith
    then show ?thesis using len_d len_v by simp
  qed
  have d0: "fst (zip dates vals ! 0) =
       (if time_units = ''days'' then add_days anchor_date 0
        else if time_units = ''months'' then month_end (month_ordinal anchor_date)
        else year_end (year anchor_date))"
    using nth_zip [of 0] nth_d [of 0] by simp
  have v0: "snd (zip dates vals ! 0) = anchor_value"
    using nth_zip [of 0] nth_v [of 0] by simp
  have "int (length (zip dates vals)) = future_timesteps + 1"
    using len_d len_v assms(3) by simp
  moreover have "\<forall>n \<le> nat future_timesteps.
                snd (zip dates vals ! n) =
                  (if rate_type = ''linear'' then anchor_value + r * real n
                   else anchor_value * r ^ n)
              \<and> fst (zip dates vals ! n) =
                  (if time_units = ''days'' then add_days anchor_date (int n)
                   else if time_units = ''months'' then month_end (month_ordinal anchor_date + int n)
                   else year_end (year anchor_date + int n))"
    using nth_zip nth_d nth_v by simp
  moreover have "time_units = ''days'' \<longrightarrow> fst (zip dates vals ! 0) = anchor_date"
    using d0 by (simp add: add_days_def)
  moreover have "time_units = ''months'' \<and> valid_date anchor_date \<longrightarrow>
                (fst (zip dates vals ! 0) = anchor_date \<longleftrightarrow> is_month_end anchor_date)"
    using d0 month_end_is_start by simp
  moreover have "time_units = ''years'' \<longrightarrow>
                (fst (zip dates vals ! 0) = anchor_date \<longleftrightarrow> is_year_end anchor_date)"
    using d0 by (cases anchor_date) (auto simp: year_end_def is_year_end_def)
  ultimately show ?thesis using out v0 by blast
qed

text \<open>
  C8.  The values of the extrapolation are as claimed (the lemma above), and with the unit
  days the range of dates starts at the anchor date.  With the unit months it does not:
  for the anchor date 1 January 2022 and one future step the two rows are dated 31 January
  and 28 February, so the anchor value 5 stands at a date that is not the anchor date.
  The frequencies \<open>M\<close> and \<open>Y\<close> that \<open>extrapolated_dataset\<close> passes to
  \<open>pd.date_range\<close> are those of month ends and year ends.
\<close>

theorem extrapolated_dataset_months_first_date:
  "extrapolated_dataset ''linear'' ''months'' 10 (Date 2022 1 1) 5 1
     = Inr [(Date 2022 1 31, 5), (Date 2022 2 28, 15)]
   \<and> extrapolated_dataset ''linear'' ''days'' 10 (Date 2022 1 1) 5 1
     = Inr [(Date 2022 1 1, 5), (Date 2022 1 2, 15)]"
  by (simp add: extrapolated_dataset_def time_units_dict_def date_range_periods_def
      month_ordinal_def month_end_def days_in_month_def is_leap_year_def upto_rec1 upt_rec
      add_days_def next_day_def)

section \<open>The filled table: results\<close>

lemma bind_Inr: "bind m f = Inr y \<Longrightarrow> \<exists>v. m = Inr v \<and> f v = Inr y"
  by (cases m) (simp_all add: bind_def)

lemma collect_map_preserves:
  assumes "collect (map f xs) = Inr ys" and "\<And>x y. f x = Inr y \<Longrightarrow> p y = p x"
  shows "map p ys = map p xs"
proof -
  from collect_Inr [OF assms(1)] have eq: "map f xs = map Inr ys" .
  then have len: "length xs = length ys" by (metis length_map)
  show ?thesis
  proof (rule nth_equalityI)
    show "length (map p ys) = length (map p xs)" using len by simp
  next
    fix i assume "i < length (map p ys)"
    then have i: "i < length ys" "i < length xs" using len by simp_all
    from eq have "map f xs ! i = map Inr ys ! i" by simp
    with i have "f (xs ! i) = Inr (ys ! i)" by simp
    from assms(2) [OF this] i show "map p ys ! i = map p xs ! i" by simp
  qed
qed

lemma assign_rows_preserves:
  assumes "assign_rows f xs = Inr ys" and "\<And>x y. f x = Inr y \<Longrightarrow> p y = p x"
  shows "map p ys = map p xs"
proof -
  from assms(1) have "collect (map f xs) = Inr ys"
    by (simp add: assign_rows_def split: if_splits)
  then show ?thesis using assms(2) by (rule collect_map_preserves)
qed

lemma add_timesteps_dates:
  assumes "add_timesteps d = Inr d'"
  shows "map date_range d' = map date_range d"
  using assms unfolding add_timesteps_def
  by (rule assign_rows_preserves) (auto split: option.splits)

lemma add_rate_dates:
  assumes "add_rate d rate_type = Inr d'"
  shows "map date_range d' = map date_range d"
proof -
  consider "rate_type = ''linear''" | "rate_type \<noteq> ''linear''" "rate_type = ''exponential''"
    | "rate_type \<noteq> ''linear''" "rate_type \<noteq> ''exponential''" by blast
  then show ?thesis
  proof cases
    case 1
    with assms have "collect (map (\<lambda>x. bind (linear_rate x) (\<lambda>r. Inr (x\<lparr>rate := Some r\<rparr>))) d)
        = Inr d'" by (simp add: add_rate_def)
    then show ?thesis by (rule collect_map_preserves) (auto dest!: bind_Inr)
  next
    case 2
    with assms have "collect (map (\<lambda>x. bind (exponential_rate x) (\<lambda>r. Inr (x\<lparr>rate := Some r\<rparr>))) d)
        = Inr d'" by (simp add: add_rate_def)
    then show ?thesis by (rule collect_map_preserves) (auto dest!: bind_Inr)
  next
    case 3
    with assms show ?thesis by (simp add: add_rate_def)
  qed
qed

lemma add_interpolated_values_dates:
  assumes "add_interpolated_values d rate_type = Inr d'"
  shows "map date_range d' = map date_range d"
proof -
  consider "rate_type = ''linear''" | "rate_type \<noteq> ''linear''" "rate_type = ''exponential''"
    | "rate_type \<noteq> ''linear''" "rate_type \<noteq> ''exponential''" by blast
  then show ?thesis
  proof cases
    case 1
    with assms have "assign_rows
        (\<lambda>x. bind (linear_values x) (\<lambda>vs. Inr (x\<lparr>interpolated := Some vs\<rparr>))) d = Inr d'"
      by (simp add: add_interpolated_values_def)
    then show ?thesis by (rule assign_rows_preserves) (auto dest!: bind_Inr)
  next
    case 2
    with assms have "assign_rows
        (\<lambda>x. bind (exponential_values x) (\<lambda>vs. Inr (x\<lparr>interpolated := Some vs\<rparr>))) d = Inr d'"
      by (simp add: add_interpolated_values_def)
    then show ?thesis by (rule assign_rows_preserves) (auto dest!: bind_Inr)
  next
    case 3
    with assms show ?thesis by (simp add: add_interpolated_values_def)
  qed
qed

lemma interpolated_dataset_dates:
  assumes "interpolated_dataset d = Inr filled"
    and "map date_range d = map (\<lambda>x. Some (g x)) rows"
  shows "map fst filled = concat (map g rows)" and "\<forall>x \<in> set rows. g x \<noteq> []"
proof -
  have none: "\<not> list_ex (\<lambda>x. date_range x = None) d"
  proof
    assume "list_ex (\<lambda>x. date_range x = None) d"
    then have "None \<in> set (map date_range d)" by (auto simp: list_ex_iff image_iff) metis
    then show False unfolding assms(2) by auto
  qed
  have cells: "map (\<lambda>x. the (date_range x)) d = map g rows"
  proof -
    have "map (\<lambda>x. the (date_range x)) d = map the (map date_range d)" by simp
    also have "\<dots> = map g rows" unfolding assms(2) by simp
    finally show ?thesis .
  qed
  from assms(1) none obtain dates vals where
    d: "explode (map g rows) = Inr dates" and
    z: "filled = zip dates vals" "length dates = length vals"
    unfolding interpolated_dataset_def column_def cells [symmetric]
    by (auto dest!: bind_Inr split: if_splits)
  from d have ne: "\<not> list_ex (\<lambda>c. c = []) (map g rows)" and c: "dates = concat (map g rows)"
    by (auto simp: explode_def split: if_splits)
  from z c show "map fst filled = concat (map g rows)" by simp
  from ne show "\<forall>x \<in> set rows. g x \<noteq> []" by (force simp: list_ex_iff)
qed

lemma fill_steps_dates:
  assumes "fill_steps ds rate_type time_units = Inr out"
    and "time_units \<in> {''days'', ''months'', ''years''}"
  shows "\<exists>filled. out = filled @ last_rows ds
      \<and> map fst filled = concat (map (segment_range time_units) (add_bounds ds))
      \<and> (\<forall>x \<in> set (add_bounds ds). segment_range time_units x \<noteq> [])
      \<and> add_bounds ds \<noteq> []"
proof -
  from assms(1) obtain d1 d2 d3 d4 filled where
    s1: "add_daterange (add_bounds ds) time_units = Inr d1" and
    s2: "add_timesteps d1 = Inr d2" and
    s3: "add_rate d2 rate_type = Inr d3" and
    s4: "add_interpolated_values d3 rate_type = Inr d4" and
    s5: "interpolated_dataset d4 = Inr filled" and
    out: "out = filled @ last_rows ds"
    unfolding fill_steps_def Let_def by (auto dest!: bind_Inr)
  have ne: "add_bounds ds \<noteq> []"
  proof
    assume "add_bounds ds = []"
    with s1 assms(2) show False by (auto simp: add_daterange_def assign_rows_def)
  qed
  from s1 have "d1 = map (\<lambda>x. x\<lparr>date_range := Some (segment_range time_units x)\<rparr>) (add_bounds ds)"
    unfolding add_daterange_units [OF assms(2) ne] segment_range_def by simp
  then have "map date_range d1 = map (\<lambda>x. Some (segment_range time_units x)) (add_bounds ds)"
    by simp
  with add_timesteps_dates [OF s2] add_rate_dates [OF s3] add_interpolated_values_dates [OF s4]
  have "map date_range d4 = map (\<lambda>x. Some (segment_range time_units x)) (add_bounds ds)"
    by simp
  from interpolated_dataset_dates [OF s5 this] out ne show ?thesis by blast
qed

lemma segments_cover:
  assumes "time_units \<in> {''days'', ''months'', ''years''}"
  shows "ds \<noteq> [] \<Longrightarrow> \<forall>r \<in> set ds. valid_date (fst r) \<Longrightarrow>
     \<forall>x \<in> set (add_bounds ds). segment_range time_units x \<noteq> [] \<Longrightarrow>
     map (unit_ordinal time_units)
         (concat (map (segment_range time_units) (add_bounds ds)) @ [fst (last ds)])
       = [unit_ordinal time_units (fst (hd ds)) .. unit_ordinal time_units (fst (last ds))]
     \<and> (\<forall>d \<in> set (concat (map (segment_range time_units) (add_bounds ds))). valid_date d)"
proof (induction ds rule: add_bounds.induct)
  case (1 a b xs)
  let ?u = "unit_ordinal time_units"
  let ?seg = "\<lparr>start_date = fst a, start_value = snd a, end_date = fst b, end_value = snd b,
      date_range = None, timesteps = None, rate = None, interpolated = None\<rparr>"
  let ?r = "segment_range time_units ?seg"
  let ?rest = "concat (map (segment_range time_units) (add_bounds (b # xs)))"
  have va: "valid_date (fst a)" and vb: "valid_date (fst b)" using 1(3) by simp_all
  have r: "?r = date_range_left (fst a) (fst b) (unit_frequency time_units)"
    by (simp add: segment_range_def)
  have ne: "?r \<noteq> []" using 1(4) by simp
  have ru: "map ?u ?r = [?u (fst a) .. ?u (fst b) - 1]"
    unfolding r by (rule date_range_left_units [OF assms va vb])
  have rv: "\<forall>d \<in> set ?r. valid_date d"
    unfolding r using date_range_left_units(2) [OF assms va vb] by blast
  from ne ru have ab: "?u (fst a) \<le> ?u (fst b) - 1" by (metis map_is_Nil_conv upto_Nil not_less)
  have ih: "map ?u (?rest @ [fst (last (b # xs))])
       = [?u (fst (hd (b # xs))) .. ?u (fst (last (b # xs)))]
     \<and> (\<forall>d \<in> set ?rest. valid_date d)"
    using 1(1) 1(3) 1(4) by simp
  then have "[?u (fst b) .. ?u (fst (last (b # xs)))] \<noteq> []"
    by (metis Nil_is_map_conv snoc_eq_iff_butlast list.sel(1))
  then have bl: "?u (fst b) \<le> ?u (fst (last (b # xs)))" by simp
  have "map ?u (concat (map (segment_range time_units) (add_bounds (a # b # xs)))
          @ [fst (last (a # b # xs))])
      = map ?u ?r @ map ?u (?rest @ [fst (last (b # xs))])"
    by simp
  also have "\<dots> = [?u (fst a) .. ?u (fst b) - 1] @ [?u (fst b) .. ?u (fst (last (b # xs)))]"
    using ru ih by simp
  also have "\<dots> = [?u (fst a) .. ?u (fst (last (b # xs)))]"
    using ab bl by (intro upto_split1 [symmetric]) simp_all
  finally have "map ?u (concat (map (segment_range time_units) (add_bounds (a # b # xs)))
          @ [fst (last (a # b # xs))])
      = [?u (fst (hd (a # b # xs))) .. ?u (fst (last (a # b # xs)))]"
    by simp
  moreover have "\<forall>d \<in> set (concat (map (segment_range time_units) (add_bounds (a # b # xs)))).
      valid_date d"
    using rv ih by auto
  ultimately show ?case by blast
qed simp_all

lemma last_rows_sorted:
  assumes "sorted_wrt (<) (map (\<lambda>r. to_ordinal (fst r)) ds)" and "ds \<noteq> []"
  shows "last_rows ds = [last ds]"
proof -
  let ?k = "\<lambda>r. to_ordinal (fst r)"
  let ?P = "\<lambda>r. list_all (\<lambda>r'. ?k r' \<le> ?k r) ds"
  have ds: "ds = butlast ds @ [last ds]" using assms(2) by simp
  have "sorted_wrt (\<lambda>a b. ?k a < ?k b) (butlast ds @ [last ds])"
    using assms(1) ds by (simp add: sorted_wrt_map)
  then have lt: "\<forall>r \<in> set (butlast ds). ?k r < ?k (last ds)"
    by (simp add: sorted_wrt_append)
  have all: "set ds = set (butlast ds) \<union> {last ds}" by (subst ds) simp
  have P_last: "?P (last ds)"
    unfolding list_all_iff all using lt by auto
  have P_else: "\<not> ?P r" if "r \<in> set (butlast ds)" for r
  proof
    assume "?P r"
    then have "?k (last ds) \<le> ?k r" unfolding list_all_iff all by simp
    with lt that show False by auto
  qed
  have "filter ?P (butlast ds @ [last ds]) = filter ?P (butlast ds) @ [last ds]"
    using P_last by simp
  moreover have "filter ?P (butlast ds) = []"
    using P_else by (simp add: filter_empty_conv)
  ultimately have "filter ?P ds = [last ds]" using ds by simp
  then show ?thesis by (simp add: last_rows_def)
qed

lemma fill_steps_output:
  assumes "\<forall>r \<in> set ds. valid_date (fst r)"
    and "sorted_wrt (<) (map (\<lambda>r. to_ordinal (fst r)) ds)"
    and "time_units \<in> {''days'', ''months'', ''years''}"
    and "fill_steps ds rate_type time_units = Inr out"
  shows "map (\<lambda>r. unit_ordinal time_units (fst r)) out
           = [unit_ordinal time_units (fst (hd ds)) .. unit_ordinal time_units (fst (last ds))]"
    and "sorted_wrt (<) (map (\<lambda>r. to_ordinal (fst r)) out)"
    and "gap_check out time_units = Inr ()"
    and "\<exists>filled. out = filled @ [last ds]
           \<and> (\<forall>r \<in> set filled. to_ordinal (fst r) < to_ordinal (fst (last ds)))"
proof -
  let ?u = "unit_ordinal time_units"
  from fill_steps_dates [OF assms(4,3)] obtain filled where
    out: "out = filled @ last_rows ds" and
    dates: "map fst filled = concat (map (segment_range time_units) (add_bounds ds))" and
    ne: "\<forall>x \<in> set (add_bounds ds). segment_range time_units x \<noteq> []" and
    rows: "add_bounds ds \<noteq> []"
    by blast
  from rows have ds: "ds \<noteq> []" by auto
  have lr: "last_rows ds = [last ds]" using assms(2) ds by (rule last_rows_sorted)
  have vl: "valid_date (fst (last ds))" using assms(1) ds by simp
  from segments_cover [OF assms(3) ds assms(1) ne]
  have cover: "map ?u (map fst filled @ [fst (last ds)])
       = [?u (fst (hd ds)) .. ?u (fst (last ds))]"
    and valid: "\<forall>d \<in> set (map fst filled). valid_date d"
    unfolding dates by simp_all
  have fst_out: "map fst out = map fst filled @ [fst (last ds)]"
    unfolding out lr by simp
  have "map (\<lambda>r. ?u (fst r)) out = map ?u (map fst out)" by (simp add: comp_def)
  with cover fst_out
  show u: "map (\<lambda>r. ?u (fst r)) out = [?u (fst (hd ds)) .. ?u (fst (last ds))]"
    by simp
  have "sorted_wrt (\<lambda>a b. to_ordinal a < to_ordinal b) (map fst out)"
  proof (rule sorted_dates_of_units)
    show "sorted_wrt (<) (map ?u (map fst out))"
      unfolding fst_out cover by simp
    show "\<forall>d \<in> set (map fst out). valid_date d"
      unfolding fst_out using valid vl by auto
  qed
  then show s: "sorted_wrt (<) (map (\<lambda>r. to_ordinal (fst r)) out)"
    by (simp add: sorted_wrt_map)
  show "gap_check out time_units = Inr ()"
  proof -
    have "unit_difference time_units (fst (out ! i)) (fst (out ! Suc i)) = 1"
      if "Suc i < length out" for i
      unfolding unit_difference_ordinal using upto_nth_diff [OF u that] .
    then have "\<not> (\<exists>i. Suc i < length out \<and>
        1 < unit_difference time_units (fst (out ! i)) (fst (out ! Suc i)))"
      by auto
    then show ?thesis unfolding gap_check_eq [OF assms(3)] by simp
  qed
  have "\<forall>r \<in> set filled. to_ordinal (fst r) < to_ordinal (fst (last ds))"
    using s unfolding out lr by (simp add: sorted_wrt_append)
  then show "\<exists>filled. out = filled @ [last ds]
           \<and> (\<forall>r \<in> set filled. to_ordinal (fst r) < to_ordinal (fst (last ds)))"
    using out lr by auto
qed

lemma collect_map_Inr_on:
  assumes "\<And>x. x \<in> set xs \<Longrightarrow> f x = Inr (g x)"
  shows "collect (map f xs) = Inr (map g xs)"
  using assms by (induction xs) simp_all

lemma segment_range_nonempty:
  assumes "time_units \<in> {''days'', ''months'', ''years''}"
    and "valid_date (start_date x)" and "valid_date (end_date x)"
    and "unit_ordinal time_units (start_date x) < unit_ordinal time_units (end_date x)"
  shows "segment_range time_units x \<noteq> []"
proof
  assume "segment_range time_units x = []"
  then have "map (unit_ordinal time_units)
      (date_range_left (start_date x) (end_date x) (unit_frequency time_units)) = []"
    by (simp add: segment_range_def)
  then have "[unit_ordinal time_units (start_date x) .. unit_ordinal time_units (end_date x) - 1]
      = []"
    unfolding date_range_left_units(1) [OF assms(1,2,3)] .
  with assms(4) show False by simp
qed

lemma fill_steps_linear_returns:
  assumes "time_units \<in> {''days'', ''months'', ''years''}"
    and "add_bounds ds \<noteq> []"
    and "\<forall>x \<in> set (add_bounds ds). segment_range time_units x \<noteq> []"
  shows "\<exists>out. fill_steps ds ''linear'' time_units = Inr out"
proof -
  let ?rows = "add_bounds ds"
  define g1 where "g1 = (\<lambda>x::row. x\<lparr>date_range := Some (segment_range time_units x)\<rparr>)"
  define g2 where "g2 = (\<lambda>x::row. x\<lparr>timesteps := Some (int (length (the (date_range x))))\<rparr>)"
  define g3 where "g3 = (\<lambda>x::row. x\<lparr>rate :=
      Some ((end_value x - start_value x) / of_int (the (timesteps x)))\<rparr>)"
  define g4 where "g4 = (\<lambda>x::row. x\<lparr>interpolated :=
      Some (map (\<lambda>n. start_value x + real n * the (rate x)) [0 ..< nat (the (timesteps x))])\<rparr>)"
  define d1 where "d1 = map g1 ?rows"
  define d2 where "d2 = map g2 d1"
  define d3 where "d3 = map g3 d2"
  define d4 where "d4 = map g4 d3"
  have s1: "add_daterange ?rows time_units = Inr d1"
    unfolding add_daterange_units [OF assms(1,2)] d1_def g1_def segment_range_def ..
  have ne1: "d1 \<noteq> []" using assms(2) by (simp add: d1_def)
  have p1: "date_range x \<noteq> None \<and> the (date_range x) \<noteq> []" if "x \<in> set d1" for x
    using that assms(3) by (auto simp: d1_def g1_def)
  have s2: "add_timesteps d1 = Inr d2"
  proof -
    have "collect (map (\<lambda>x. case date_range x of None \<Rightarrow> Inl KeyError
        | Some r \<Rightarrow> Inr (x\<lparr>timesteps := Some (int (length r))\<rparr>)) d1) = Inr (map g2 d1)"
    proof (rule collect_map_Inr_on)
      fix x assume "x \<in> set d1"
      from p1 [OF this] show "(case date_range x of None \<Rightarrow> Inl KeyError
        | Some r \<Rightarrow> Inr (x\<lparr>timesteps := Some (int (length r))\<rparr>)) = Inr (g2 x)"
        by (auto simp: g2_def)
    qed
    then show ?thesis using ne1 by (simp add: add_timesteps_def assign_rows_def d2_def)
  qed
  have p2: "date_range x \<noteq> None \<and> the (date_range x) \<noteq> []
      \<and> timesteps x = Some (int (length (the (date_range x))))"
    if "x \<in> set d2" for x
  proof -
    from that obtain y where y: "y \<in> set d1" "x = g2 y" by (auto simp: d2_def)
    from p1 [OF y(1)] show ?thesis unfolding y(2) by (simp add: g2_def)
  qed
  have s3: "add_rate d2 ''linear'' = Inr d3"
  proof -
    have "collect (map (\<lambda>x. bind (linear_rate x) (\<lambda>r. Inr (x\<lparr>rate := Some r\<rparr>))) d2)
        = Inr (map g3 d2)"
    proof (rule collect_map_Inr_on)
      fix x assume "x \<in> set d2"
      from p2 [OF this]
      show "bind (linear_rate x) (\<lambda>r. Inr (x\<lparr>rate := Some r\<rparr>)) = Inr (g3 x)"
        by (simp add: linear_rate_def py_div_def bind_def g3_def)
    qed
    then show ?thesis by (simp add: add_rate_def d3_def)
  qed
  have p3: "date_range x \<noteq> None \<and> the (date_range x) \<noteq> []
      \<and> timesteps x = Some (int (length (the (date_range x)))) \<and> rate x \<noteq> None"
    if "x \<in> set d3" for x
  proof -
    from that obtain y where y: "y \<in> set d2" "x = g3 y" by (auto simp: d3_def)
    from p2 [OF y(1)] show ?thesis unfolding y(2) by (simp add: g3_def)
  qed
  have ne3: "d3 \<noteq> []" using ne1 by (simp add: d3_def d2_def)
  have s4: "add_interpolated_values d3 ''linear'' = Inr d4"
  proof -
    have "collect (map (\<lambda>x. bind (linear_values x) (\<lambda>vs. Inr (x\<lparr>interpolated := Some vs\<rparr>))) d3)
        = Inr (map g4 d3)"
    proof (rule collect_map_Inr_on)
      fix x assume "x \<in> set d3"
      from p3 [OF this]
      show "bind (linear_values x) (\<lambda>vs. Inr (x\<lparr>interpolated := Some vs\<rparr>)) = Inr (g4 x)"
        by (auto simp: linear_values_def bind_def g4_def)
    qed
    then show ?thesis using ne3 by (simp add: add_interpolated_values_def assign_rows_def d4_def)
  qed
  have p4: "date_range x \<noteq> None \<and> the (date_range x) \<noteq> [] \<and> interpolated x \<noteq> None
      \<and> length (the (interpolated x)) = length (the (date_range x))"
    if "x \<in> set d4" for x
  proof -
    from that obtain y where y: "y \<in> set d3" "x = g4 y" by (auto simp: d4_def)
    from p3 [OF y(1)] show ?thesis unfolding y(2) by (simp add: g4_def)
  qed
  have s5: "\<exists>filled. interpolated_dataset d4 = Inr filled"
  proof -
    have c1: "\<not> list_ex (\<lambda>x. date_range x = None) d4"
      using p4 by (auto simp: list_ex_iff)
    have c2: "\<not> list_ex (\<lambda>x. interpolated x = None) d4"
      using p4 by (auto simp: list_ex_iff)
    have e1: "\<not> list_ex (\<lambda>c. c = []) (map (\<lambda>x. the (date_range x)) d4)"
    proof
      assume "list_ex (\<lambda>c. c = []) (map (\<lambda>x. the (date_range x)) d4)"
      then obtain x where "x \<in> set d4" "the (date_range x) = []"
        by (auto simp: list_ex_iff)
      with p4 [of x] show False by auto
    qed
    have e2: "\<not> list_ex (\<lambda>c. c = []) (map (\<lambda>x. the (interpolated x)) d4)"
    proof
      assume "list_ex (\<lambda>c. c = []) (map (\<lambda>x. the (interpolated x)) d4)"
      then obtain x where "x \<in> set d4" "the (interpolated x) = []"
        by (auto simp: list_ex_iff)
      with p4 [of x] show False by auto
    qed
    have "map (\<lambda>x. length (the (date_range x))) d4
        = map (\<lambda>x. length (the (interpolated x))) d4"
    proof (rule map_cong [OF refl])
      fix x assume "x \<in> set d4"
      from p4 [OF this] show "length (the (date_range x)) = length (the (interpolated x))"
        by simp
    qed
    then have "sum_list (map (\<lambda>x. length (the (date_range x))) d4)
        = sum_list (map (\<lambda>x. length (the (interpolated x))) d4)"
      by (rule arg_cong)
    moreover have "length (concat (map (\<lambda>x. the (date_range x)) d4))
        = sum_list (map (\<lambda>x. length (the (date_range x))) d4)"
      by (simp add: length_concat comp_def)
    moreover have "length (concat (map (\<lambda>x. the (interpolated x)) d4))
        = sum_list (map (\<lambda>x. length (the (interpolated x))) d4)"
      by (simp add: length_concat comp_def)
    ultimately have len: "length (concat (map (\<lambda>x. the (date_range x)) d4))
        = length (concat (map (\<lambda>x. the (interpolated x)) d4))"
      by (simp only:)
    show ?thesis
      using c1 c2 e1 e2 len
      by (simp add: interpolated_dataset_def column_def explode_def bind_def)
  qed
  then obtain filled where "interpolated_dataset d4 = Inr filled" ..
  with s1 s2 s3 s4 show ?thesis
    by (simp add: fill_steps_def Let_def bind_def)
qed

text \<open>
  C9.  Let a series have valid dates in strictly increasing order, and let \<open>fill_gaps\<close>
  at one of the three units, or \<open>monthly_to_daily\<close> (target unit days), or
  \<open>yearly_to_monthly\<close> (target unit months) return a table for it.  Then the dates of
  that table are strictly increasing (sorted, no date twice); the table has exactly one
  row for each period of the target unit from the period of the first observation to that
  of the last, so \<open>gap_check\<close> at the target unit passes on it; and the table ends with
  the last observation of the series, every row before it having an earlier date.
\<close>

theorem fill_output_gap_free:
  assumes "\<forall>r \<in> set dataset. valid_date (fst r)"
    and "sorted_wrt (<) (map (\<lambda>r. to_ordinal (fst r)) dataset)"
    and "time_units \<in> {''days'', ''months'', ''years''}"
    and "fill_gaps dataset rate_type time_units = Inr out
         \<or> time_units = ''days'' \<and> monthly_to_daily dataset rate_type = Inr out
         \<or> time_units = ''months'' \<and> yearly_to_monthly dataset rate_type = Inr out"
  shows "sorted_wrt (<) (map (\<lambda>r. to_ordinal (fst r)) out)
       \<and> map (\<lambda>r. unit_ordinal time_units (fst r)) out
           = [unit_ordinal time_units (fst (hd dataset)) ..
              unit_ordinal time_units (fst (last dataset))]
       \<and> gap_check out time_units = Inr ()
       \<and> (\<exists>filled. out = filled @ [last dataset]
             \<and> (\<forall>r \<in> set filled. to_ordinal (fst r) < to_ordinal (fst (last dataset))))"
proof -
  from assms(4) have "fill_steps dataset rate_type time_units = Inr out"
  proof (elim disjE conjE)
    assume "fill_gaps dataset rate_type time_units = Inr out"
    then show ?thesis by (simp add: fill_gaps_def)
  next
    assume "time_units = ''days''" "monthly_to_daily dataset rate_type = Inr out"
    then show ?thesis by (auto simp: monthly_to_daily_def dest!: bind_Inr)
  next
    assume "time_units = ''months''" "yearly_to_monthly dataset rate_type = Inr out"
    then show ?thesis by (auto simp: yearly_to_monthly_def dest!: bind_Inr)
  qed
  from fill_steps_output [OF assms(1,2,3) this] show ?thesis by (intro conjI)
qed

lemma series_jump_facts:
  "\<forall>r \<in> set series_jump. valid_date (fst r)"
  "sorted_wrt (<) (map (\<lambda>r. to_ordinal (fst r)) series_jump)"
  "add_bounds series_jump \<noteq> []"
  "\<forall>x \<in> set (add_bounds series_jump). segment_range ''years'' x \<noteq> []"
proof -
  show v: "\<forall>r \<in> set series_jump. valid_date (fst r)"
    by (simp add: series_jump_def valid_date_def days_in_month_def)
  show "sorted_wrt (<) (map (\<lambda>r. to_ordinal (fst r)) series_jump)"
    by (simp add: series_jump_def calendar_eval)
  show "add_bounds series_jump \<noteq> []" by (simp add: series_jump_def)
  show "\<forall>x \<in> set (add_bounds series_jump). segment_range ''years'' x \<noteq> []"
  proof
    fix x assume "x \<in> set (add_bounds series_jump)"
    then have x: "start_date x = Date 2020 1 1" "end_date x = Date 2022 1 1"
      by (auto simp: series_jump_def)
    show "segment_range ''years'' x \<noteq> []"
      by (rule segment_range_nonempty)
        (simp_all add: x valid_date_def days_in_month_def unit_ordinal_def)
  qed
qed

lemma series_months_facts:
  "\<forall>r \<in> set series_months. valid_date (fst r)"
  "sorted_wrt (<) (map (\<lambda>r. to_ordinal (fst r)) series_months)"
  "add_bounds series_months \<noteq> []"
  "\<forall>x \<in> set (add_bounds series_months). segment_range ''days'' x \<noteq> []"
  "\<forall>x \<in> set (add_bounds series_months). segment_range ''months'' x \<noteq> []"
  "gap_check series_months ''months'' = Inr ()"
proof -
  have lt: "to_ordinal (Date 2020 2 27) < to_ordinal (Date 2020 3 1)"
    by (simp add: calendar_eval)
  have v: "valid_date (Date 2020 2 27)" "valid_date (Date 2020 3 1)"
    by (simp_all add: valid_date_def days_in_month_def is_leap_year_def)
  show "\<forall>r \<in> set series_months. valid_date (fst r)"
    using v by (simp add: series_months_def)
  show "sorted_wrt (<) (map (\<lambda>r. to_ordinal (fst r)) series_months)"
    using lt by (simp add: series_months_def)
  show "add_bounds series_months \<noteq> []" by (simp add: series_months_def)
  show "\<forall>x \<in> set (add_bounds series_months). segment_range ''days'' x \<noteq> []"
  proof
    fix x assume "x \<in> set (add_bounds series_months)"
    then have x: "start_date x = Date 2020 2 27" "end_date x = Date 2020 3 1"
      by (auto simp: series_months_def)
    show "segment_range ''days'' x \<noteq> []"
      by (rule segment_range_nonempty) (simp_all add: x v lt unit_ordinal_def)
  qed
  show "\<forall>x \<in> set (add_bounds series_months). segment_range ''months'' x \<noteq> []"
  proof
    fix x assume "x \<in> set (add_bounds series_months)"
    then have x: "start_date x = Date 2020 2 27" "end_date x = Date 2020 3 1"
      by (auto simp: series_months_def)
    show "segment_range ''months'' x \<noteq> []"
      by (rule segment_range_nonempty) (simp_all add: x v unit_ordinal_def month_ordinal_def)
  qed
  show "gap_check series_months ''months'' = Inr ()"
    by (simp add: series_months_def gap_check_def bind_def month_ordinal_def)
qed

theorem fill_output_gap_free_witness:
  "(\<exists>out. fill_gaps series_jump ''linear'' ''years'' = Inr out
      \<and> sorted_wrt (<) (map (\<lambda>r. to_ordinal (fst r)) out)
      \<and> gap_check out ''years'' = Inr ())
   \<and> (\<exists>out. monthly_to_daily series_months ''linear'' = Inr out
      \<and> sorted_wrt (<) (map (\<lambda>r. to_ordinal (fst r)) out)
      \<and> gap_check out ''days'' = Inr ())
   \<and> (\<exists>out. yearly_to_monthly series_months ''linear'' = Inr out
      \<and> sorted_wrt (<) (map (\<lambda>r. to_ordinal (fst r)) out)
      \<and> gap_check out ''months'' = Inr ())"
proof (intro conjI)
  have y: "''years'' \<in> {''days'', ''months'', ''years''}" by simp
  from fill_steps_linear_returns [OF y series_jump_facts(3,4)] obtain out where
    out: "fill_gaps series_jump ''linear'' ''years'' = Inr out"
    unfolding fill_gaps_def ..
  note th = fill_output_gap_free [OF series_jump_facts(1,2) y disjI1, OF out]
  from out th [THEN conjunct1] th [THEN conjunct2, THEN conjunct2, THEN conjunct1]
  show "\<exists>out. fill_gaps series_jump ''linear'' ''years'' = Inr out
      \<and> sorted_wrt (<) (map (\<lambda>r. to_ordinal (fst r)) out)
      \<and> gap_check out ''years'' = Inr ()"
    by (intro exI conjI)
next
  have d: "''days'' \<in> {''days'', ''months'', ''years''}" by simp
  from fill_steps_linear_returns [OF d series_months_facts(3,4)] obtain out where
    "fill_steps series_months ''linear'' ''days'' = Inr out" ..
  then have out: "monthly_to_daily series_months ''linear'' = Inr out"
    by (simp add: monthly_to_daily_def series_months_facts(6) bind_def)
  note th = fill_output_gap_free [OF series_months_facts(1,2) d disjI2, OF disjI1, OF conjI,
      OF refl out]
  from out th [THEN conjunct1] th [THEN conjunct2, THEN conjunct2, THEN conjunct1]
  show "\<exists>out. monthly_to_daily series_months ''linear'' = Inr out
      \<and> sorted_wrt (<) (map (\<lambda>r. to_ordinal (fst r)) out)
      \<and> gap_check out ''days'' = Inr ()"
    by (intro exI conjI)
next
  have m: "''months'' \<in> {''days'', ''months'', ''years''}" by simp
  from fill_steps_linear_returns [OF m series_months_facts(3,5)] obtain out where
    "fill_steps series_months ''linear'' ''months'' = Inr out" ..
  then have out: "yearly_to_monthly series_months ''linear'' = Inr out"
    by (simp add: yearly_to_monthly_def series_months_facts(6) bind_def)
  note th = fill_output_gap_free [OF series_months_facts(1,2) m disjI2, OF disjI2, OF conjI,
      OF refl out]
  from out th [THEN conjunct1] th [THEN conjunct2, THEN conjunct2, THEN conjunct1]
  show "\<exists>out. yearly_to_monthly series_months ''linear'' = Inr out
      \<and> sorted_wrt (<) (map (\<lambda>r. to_ordinal (fst r)) out)
      \<and> gap_check out ''months'' = Inr ()"
    by (intro exI conjI)
qed

end
